theory Spec2Isabelle
  imports Main
begin

section \<open>The reservoir limiter of \<^verbatim>\<open>reservoir_limiter.go\<close>\<close>

text \<open>
  The Go program is a set of goroutines around one \<^verbatim>\<open>reservoirLimiter\<close> struct: callers of
  \<^verbatim>\<open>Limit\<close>, the goroutine running \<^verbatim>\<open>manageTokens\<close> and the goroutines running
  \<^verbatim>\<open>refillTokens\<close>. It is modelled as an interleaving transition system. Every goroutine
  has a program counter; an action names the goroutine (by its index in the list of its
  kind) that moves, and \<open>fire\<close> computes the next state, or \<open>None\<close> when the action is not
  enabled.

  \<^item> The two channels \<^verbatim>\<open>in\<close> and \<^verbatim>\<open>out\<close> are unbuffered, so they hold no state: a
    transfer is one joint action of a parked sender and a parked receiver.
  \<^item> A section between \<^verbatim>\<open>l.mutex.Lock()\<close> and \<^verbatim>\<open>l.mutex.Unlock()\<close> is one action: the
    mutex makes the sections exclude one another, and nothing outside a section reads or
    writes \<^verbatim>\<open>numConcurrent\<close>.
  \<^item> Time is not modelled: a ticker may fire at any moment after it was created.
  \<^item> The context of a call is the caller's: \<open>ctx = None\<close> while its \<^verbatim>\<open>Done()\<close> channel is
    open, \<open>ctx = Some e\<close> once it is closed, \<open>e\<close> being what \<^verbatim>\<open>Err()\<close> then returns.
  \<^item> Go's \<^verbatim>\<open>int\<close> is modelled as \<open>int\<close>: for a capacity that is not negative the token
    count stays between 0 and the capacity (lemma \<open>level_inv_reach\<close>), so no increment or
    decrement of it can wrap.
\<close>

subsection \<open>Data\<close>

type_synonym error = string

text \<open>The struct, without the channels and the mutex (see above).\<close>

record reservoirLimiter =
  maxTokens :: int
  refillDuration :: int
  numConcurrent :: int

text \<open>Where a call of \<^verbatim>\<open>Limit\<close> stands: before line 33, parked in the \<^verbatim>\<open>select\<close> of
  line 41, in the branch of line 42, in the branch of line 47, or returned with its result
  (\<open>None\<close> is \<^verbatim>\<open>nil\<close>).\<close>

datatype cpc = CEntry | CSelect | CGotToken | CCancelled | CReturned "error option"

record caller =
  ctx :: "error option"
  cpc :: cpc

text \<open>Where \<^verbatim>\<open>manageTokens\<close> stands: at the \<^verbatim>\<open>switch\<close> of line 59, parked at the receive of
  line 61, parked at the send of line 72, parked in the \<^verbatim>\<open>select\<close> of line 76, or returned
  (line 69).\<close>

datatype mpc = MLoop | MRecv | MSend | MSelect | MReturned

record manager =
  tokenCount :: int
  mpc :: mpc

text \<open>Where \<^verbatim>\<open>refillTokens\<close> stands: before line 88, waiting for the ticker (line 89), at
  the \<^verbatim>\<open>select\<close> of line 90, or returned (line 96).\<close>

datatype rpc = RStart | RWait | RSelect | RStopped

record sys =
  lim :: reservoirLimiter
  managers :: "manager list"
  callers :: "caller list"
  refillers :: "rpc list"
  panicked :: bool

datatype action =
    Call "error option"
  | Cancel nat error
  | Enter nat
  | TakeCancel nat
  | ExitOk nat
  | ExitCancel nat
  | Switch nat
  | Dispense nat nat
  | StartTicker nat
  | Tick nat
  | Refill nat nat
  | GiveUp nat

subsection \<open>The constructor\<close>

definition NewReservoirLimiter :: "int \<Rightarrow> int \<Rightarrow> reservoirLimiter" where
  "NewReservoirLimiter mt rd =
     \<lparr>maxTokens = mt, refillDuration = rd, numConcurrent = 0\<rparr>"

text \<open>The constructor as section 6 of the specification words it: it fails when the
  capacity or the refill period is not positive.\<close>

definition Construct_spec :: "int \<Rightarrow> int \<Rightarrow> reservoirLimiter option" where
  "Construct_spec capacity refillPeriod =
     (if capacity \<le> 0 \<or> refillPeriod \<le> 0 then None
      else Some \<lparr>maxTokens = capacity, refillDuration = refillPeriod, numConcurrent = 0\<rparr>)"

definition init :: "reservoirLimiter \<Rightarrow> sys" where
  "init l = \<lparr>lim = l, managers = [], callers = [], refillers = [], panicked = False\<rparr>"

subsection \<open>The goroutines\<close>

text \<open>A manager is parked as a receiver on \<^verbatim>\<open>l.in\<close> at lines 61 and 77, and as a sender on
  \<^verbatim>\<open>l.out\<close> at lines 72 and 79.\<close>

definition recv_ready :: "manager \<Rightarrow> bool" where
  "recv_ready m = (mpc m = MRecv \<or> mpc m = MSelect)"

definition send_ready :: "manager \<Rightarrow> bool" where
  "send_ready m = (mpc m = MSend \<or> mpc m = MSelect)"

definition running :: "manager \<Rightarrow> bool" where
  "running m = (mpc m \<noteq> MReturned)"

text \<open>A call counts in \<^verbatim>\<open>numConcurrent\<close> from line 40 until its decrement.\<close>

definition inside :: "caller \<Rightarrow> bool" where
  "inside c = (cpc c = CSelect \<or> cpc c = CGotToken \<or> cpc c = CCancelled)"

definition admitted :: "caller \<Rightarrow> bool" where
  "admitted c = (cpc c = CGotToken \<or> cpc c = CReturned None)"

definition set_count :: "int \<Rightarrow> sys \<Rightarrow> sys" where
  "set_count n s = s\<lparr>lim := (lim s)\<lparr>numConcurrent := n\<rparr>\<rparr>"

definition set_cpc :: "nat \<Rightarrow> cpc \<Rightarrow> sys \<Rightarrow> sys" where
  "set_cpc i p s = s\<lparr>callers := (callers s)[i := (callers s ! i)\<lparr>cpc := p\<rparr>]\<rparr>"

definition set_manager :: "nat \<Rightarrow> manager \<Rightarrow> sys \<Rightarrow> sys" where
  "set_manager j m s = s\<lparr>managers := (managers s)[j := m]\<rparr>"

definition set_rpc :: "nat \<Rightarrow> rpc \<Rightarrow> sys \<Rightarrow> sys" where
  "set_rpc k p s = s\<lparr>refillers := (refillers s)[k := p]\<rparr>"

text \<open>\<^verbatim>\<open>Limit\<close>, lines 33 to 40.\<close>

definition limit_enter :: "nat \<Rightarrow> sys \<Rightarrow> sys" where
  "limit_enter i s =
     (if numConcurrent (lim s) = 0
      then set_cpc i CSelect
             ((set_count 2 s)\<lparr>managers := managers s @
                 [\<lparr>tokenCount = maxTokens (lim s), mpc = MLoop\<rparr>]\<rparr>)
      else set_cpc i CSelect (set_count (numConcurrent (lim s) + 1) s))"

text \<open>\<^verbatim>\<open>manageTokens\<close>, lines 59 to 71 and the \<^verbatim>\<open>default\<close> of line 75: the \<^verbatim>\<open>switch\<close>
  tries \<^verbatim>\<open>case 0\<close> first.\<close>

definition manager_switch :: "nat \<Rightarrow> sys \<Rightarrow> sys" where
  "manager_switch j s =
     (let m = managers s ! j in
      if tokenCount m = 0 then set_manager j (m\<lparr>mpc := MRecv\<rparr>) s
      else if tokenCount m = maxTokens (lim s) then
        (if numConcurrent (lim s) = 1
         then set_manager j (m\<lparr>mpc := MReturned\<rparr>) (set_count 0 s)
         else set_manager j (m\<lparr>mpc := MSend\<rparr>) s)
      else set_manager j (m\<lparr>mpc := MSelect\<rparr>) s)"

text \<open>A transfer on \<^verbatim>\<open>l.out\<close>: lines 72 to 74 or lines 79 and 80 for the manager, line 42
  for the caller.\<close>

definition dispense :: "nat \<Rightarrow> nat \<Rightarrow> sys \<Rightarrow> sys" where
  "dispense j i s =
     (let m = managers s ! j;
          s' = set_cpc i CGotToken
                 (set_manager j \<lparr>tokenCount = tokenCount m - 1, mpc = MLoop\<rparr> s)
      in if mpc m = MSend then s'\<lparr>refillers := refillers s @ [RStart]\<rparr> else s')"

text \<open>A transfer on \<^verbatim>\<open>l.in\<close>: line 91 for the scheduler, lines 61 and 62 or lines 77 and 78
  for the manager.\<close>

definition refill :: "nat \<Rightarrow> nat \<Rightarrow> sys \<Rightarrow> sys" where
  "refill k j s =
     set_rpc k RWait
       (set_manager j \<lparr>tokenCount = tokenCount (managers s ! j) + 1, mpc = MLoop\<rparr> s)"

text \<open>Line 88: \<^verbatim>\<open>time.NewTicker\<close> panics when the duration is not positive, and a panic in
  a goroutine ends the program.\<close>

definition start_ticker :: "nat \<Rightarrow> sys \<Rightarrow> sys" where
  "start_ticker k s =
     (if refillDuration (lim s) \<le> 0 then s\<lparr>panicked := True\<rparr> else set_rpc k RWait s)"

fun fire :: "action \<Rightarrow> sys \<Rightarrow> sys option" where
  "fire (Call c) s = Some (s\<lparr>callers := callers s @ [\<lparr>ctx = c, cpc = CEntry\<rparr>]\<rparr>)"
| "fire (Cancel i e) s =
     (if i < length (callers s) \<and> ctx (callers s ! i) = None
      then Some (s\<lparr>callers := (callers s)[i := (callers s ! i)\<lparr>ctx := Some e\<rparr>]\<rparr>)
      else None)"
| "fire (Enter i) s =
     (if i < length (callers s) \<and> cpc (callers s ! i) = CEntry
      then Some (limit_enter i s) else None)"
| "fire (TakeCancel i) s =
     (if i < length (callers s) \<and> cpc (callers s ! i) = CSelect \<and> ctx (callers s ! i) \<noteq> None
      then Some (set_cpc i CCancelled s) else None)"
| "fire (ExitOk i) s =
     (if i < length (callers s) \<and> cpc (callers s ! i) = CGotToken
      then Some (set_cpc i (CReturned None) (set_count (numConcurrent (lim s) - 1) s))
      else None)"
| "fire (ExitCancel i) s =
     (if i < length (callers s) \<and> cpc (callers s ! i) = CCancelled
      then Some (set_cpc i (CReturned (ctx (callers s ! i)))
                   (set_count (numConcurrent (lim s) - 1) s))
      else None)"
| "fire (Switch j) s =
     (if j < length (managers s) \<and> mpc (managers s ! j) = MLoop
      then Some (manager_switch j s) else None)"
| "fire (Dispense j i) s =
     (if j < length (managers s) \<and> send_ready (managers s ! j) \<and>
         i < length (callers s) \<and> cpc (callers s ! i) = CSelect
      then Some (dispense j i s) else None)"
| "fire (StartTicker k) s =
     (if k < length (refillers s) \<and> refillers s ! k = RStart
      then Some (start_ticker k s) else None)"
| "fire (Tick k) s =
     (if k < length (refillers s) \<and> refillers s ! k = RWait
      then Some (set_rpc k RSelect s) else None)"
| "fire (Refill k j) s =
     (if k < length (refillers s) \<and> refillers s ! k = RSelect \<and>
         j < length (managers s) \<and> recv_ready (managers s ! j)
      then Some (refill k j s) else None)"
| "fire (GiveUp k) s =
     (if k < length (refillers s) \<and> refillers s ! k = RSelect \<and>
         \<not> list_ex recv_ready (managers s)
      then Some (set_rpc k RStopped s) else None)"

text \<open>After a panic nothing runs.\<close>

definition step :: "action \<Rightarrow> sys \<Rightarrow> sys option" where
  "step a s = (if panicked s then None else fire a s)"

fun run :: "action list \<Rightarrow> sys \<Rightarrow> sys option" where
  "run [] s = Some s"
| "run (a # as) s = (case step a s of None \<Rightarrow> None | Some t \<Rightarrow> run as t)"

definition reach :: "reservoirLimiter \<Rightarrow> sys \<Rightarrow> bool" where
  "reach l s = (\<exists>as. run as (init l) = Some s)"

subsection \<open>Counting goroutines\<close>

definition count_if :: "('a \<Rightarrow> bool) \<Rightarrow> 'a list \<Rightarrow> int" where
  "count_if P xs = int (length (filter P xs))"

text \<open>What \<^verbatim>\<open>numConcurrent\<close> counts: the running manager and the calls between their
  entry and their exit; there is at most one running manager, and no call is inside
  without one.\<close>

definition count_inv :: "sys \<Rightarrow> bool" where
  "count_inv s =
     (numConcurrent (lim s) = count_if running (managers s) + count_if inside (callers s) \<and>
      count_if running (managers s) \<le> 1 \<and>
      (count_if running (managers s) = 0 \<longrightarrow> count_if inside (callers s) = 0))"

subsection \<open>Some states of a limiter of capacity 1\<close>

text \<open>After \<open>[Call (Some ''gone''), Enter 0, TakeCancel 0, ExitCancel 0]\<close>: the only call was
  cancelled and has returned, its manager is still at the \<^verbatim>\<open>switch\<close>.\<close>

definition st_idle :: sys where
  "st_idle =
     \<lparr>lim = \<lparr>maxTokens = 1, refillDuration = 1, numConcurrent = 1\<rparr>,
      managers = [\<lparr>tokenCount = 1, mpc = MLoop\<rparr>],
      callers = [\<lparr>ctx = Some ''gone'', cpc = CReturned (Some ''gone'')\<rparr>],
      refillers = [], panicked = False\<rparr>"

text \<open>The state after that manager has returned.\<close>

definition st_down :: sys where
  "st_down =
     \<lparr>lim = \<lparr>maxTokens = 1, refillDuration = 1, numConcurrent = 0\<rparr>,
      managers = [\<lparr>tokenCount = 1, mpc = MReturned\<rparr>],
      callers = [\<lparr>ctx = Some ''gone'', cpc = CReturned (Some ''gone'')\<rparr>],
      refillers = [], panicked = False\<rparr>"

subsection \<open>The level\<close>

text \<open>What holds of the token count of a manager of a limiter of capacity \<open>mt\<close>, by
  the place where the manager stands.\<close>

definition level_ok :: "int \<Rightarrow> manager \<Rightarrow> bool" where
  "level_ok mt m =
     (0 \<le> tokenCount m \<and> tokenCount m \<le> mt \<and>
      (mpc m = MRecv \<longrightarrow> tokenCount m = 0) \<and>
      (mpc m = MSend \<longrightarrow> tokenCount m = mt \<and> tokenCount m \<noteq> 0) \<and>
      (mpc m = MSelect \<longrightarrow> 0 < tokenCount m \<and> tokenCount m < mt))"

definition level_inv :: "int \<Rightarrow> sys \<Rightarrow> bool" where
  "level_inv mt s =
     (maxTokens (lim s) = mt \<and> (mt = 0 \<longrightarrow> refillers s = []) \<and>
      (\<forall>j < length (managers s). level_ok mt (managers s ! j)))"

subsection \<open>More states of a limiter of capacity 1\<close>

text \<open>After \<open>[Call None, Enter 0, Switch 0, Dispense 0 0, ExitOk 0, Switch 0, StartTicker 0,
  Tick 0]\<close>: the token is out, the manager waits for a refill, the ticker has fired. Then
  the state after the refill.\<close>

definition st_empty :: sys where
  "st_empty =
     \<lparr>lim = \<lparr>maxTokens = 1, refillDuration = 1, numConcurrent = 1\<rparr>,
      managers = [\<lparr>tokenCount = 0, mpc = MRecv\<rparr>],
      callers = [\<lparr>ctx = None, cpc = CReturned None\<rparr>],
      refillers = [RSelect], panicked = False\<rparr>"

definition st_refilled :: sys where
  "st_refilled =
     \<lparr>lim = \<lparr>maxTokens = 1, refillDuration = 1, numConcurrent = 1\<rparr>,
      managers = [\<lparr>tokenCount = 1, mpc = MLoop\<rparr>],
      callers = [\<lparr>ctx = None, cpc = CReturned None\<rparr>],
      refillers = [RWait], panicked = False\<rparr>"

subsection \<open>States of a scheduler\<close>

text \<open>The refilled state after its next tick, and after the scheduler has given up.\<close>

definition st_ticked :: sys where
  "st_ticked =
     \<lparr>lim = \<lparr>maxTokens = 1, refillDuration = 1, numConcurrent = 1\<rparr>,
      managers = [\<lparr>tokenCount = 1, mpc = MLoop\<rparr>],
      callers = [\<lparr>ctx = None, cpc = CReturned None\<rparr>],
      refillers = [RSelect], panicked = False\<rparr>"

definition st_stopped :: sys where
  "st_stopped =
     \<lparr>lim = \<lparr>maxTokens = 1, refillDuration = 1, numConcurrent = 1\<rparr>,
      managers = [\<lparr>tokenCount = 1, mpc = MLoop\<rparr>],
      callers = [\<lparr>ctx = None, cpc = CReturned None\<rparr>],
      refillers = [RStopped], panicked = False\<rparr>"

subsection \<open>States of a limiter of capacity 2\<close>

text \<open>After \<open>[Call None, Enter 0]\<close>; after the manager's \<open>Switch 0\<close>; after
  \<open>Dispense 0 0\<close>. Then, after \<open>[ExitOk 0, StartTicker 0, Tick 0, Call None, Enter 1]\<close>,
  the manager at the switch with one token left, a second call waiting and the scheduler
  offering a token; after the manager's \<open>Switch 0\<close>; and the two states the race of the
  \<^verbatim>\<open>select\<close> can lead to.\<close>

definition st2_full :: sys where
  "st2_full =
     \<lparr>lim = \<lparr>maxTokens = 2, refillDuration = 1, numConcurrent = 2\<rparr>,
      managers = [\<lparr>tokenCount = 2, mpc = MLoop\<rparr>],
      callers = [\<lparr>ctx = None, cpc = CSelect\<rparr>],
      refillers = [], panicked = False\<rparr>"

definition st2_send :: sys where
  "st2_send =
     \<lparr>lim = \<lparr>maxTokens = 2, refillDuration = 1, numConcurrent = 2\<rparr>,
      managers = [\<lparr>tokenCount = 2, mpc = MSend\<rparr>],
      callers = [\<lparr>ctx = None, cpc = CSelect\<rparr>],
      refillers = [], panicked = False\<rparr>"

definition st2_one :: sys where
  "st2_one =
     \<lparr>lim = \<lparr>maxTokens = 2, refillDuration = 1, numConcurrent = 2\<rparr>,
      managers = [\<lparr>tokenCount = 1, mpc = MLoop\<rparr>],
      callers = [\<lparr>ctx = None, cpc = CGotToken\<rparr>],
      refillers = [RStart], panicked = False\<rparr>"

definition st2_partial :: sys where
  "st2_partial =
     \<lparr>lim = \<lparr>maxTokens = 2, refillDuration = 1, numConcurrent = 2\<rparr>,
      managers = [\<lparr>tokenCount = 1, mpc = MLoop\<rparr>],
      callers = [\<lparr>ctx = None, cpc = CReturned None\<rparr>, \<lparr>ctx = None, cpc = CSelect\<rparr>],
      refillers = [RSelect], panicked = False\<rparr>"

definition st2_race :: sys where
  "st2_race =
     \<lparr>lim = \<lparr>maxTokens = 2, refillDuration = 1, numConcurrent = 2\<rparr>,
      managers = [\<lparr>tokenCount = 1, mpc = MSelect\<rparr>],
      callers = [\<lparr>ctx = None, cpc = CReturned None\<rparr>, \<lparr>ctx = None, cpc = CSelect\<rparr>],
      refillers = [RSelect], panicked = False\<rparr>"

definition st2_up :: sys where
  "st2_up =
     \<lparr>lim = \<lparr>maxTokens = 2, refillDuration = 1, numConcurrent = 2\<rparr>,
      managers = [\<lparr>tokenCount = 2, mpc = MLoop\<rparr>],
      callers = [\<lparr>ctx = None, cpc = CReturned None\<rparr>, \<lparr>ctx = None, cpc = CSelect\<rparr>],
      refillers = [RWait], panicked = False\<rparr>"

definition st2_down :: sys where
  "st2_down =
     \<lparr>lim = \<lparr>maxTokens = 2, refillDuration = 1, numConcurrent = 2\<rparr>,
      managers = [\<lparr>tokenCount = 0, mpc = MLoop\<rparr>],
      callers = [\<lparr>ctx = None, cpc = CReturned None\<rparr>, \<lparr>ctx = None, cpc = CGotToken\<rparr>],
      refillers = [RSelect], panicked = False\<rparr>"

subsection \<open>Calls\<close>

definition caller_ok :: "caller \<Rightarrow> bool" where
  "caller_ok c =
     (case cpc c of
        CCancelled \<Rightarrow> ctx c \<noteq> None
      | CReturned r \<Rightarrow> r = None \<or> r = ctx c
      | _ \<Rightarrow> True)"

definition callers_inv :: "sys \<Rightarrow> bool" where
  "callers_inv s = (\<forall>i < length (callers s). caller_ok (callers s ! i))"

definition stc_wait :: sys where
  "stc_wait =
     \<lparr>lim = \<lparr>maxTokens = 1, refillDuration = 1, numConcurrent = 2\<rparr>,
      managers = [\<lparr>tokenCount = 1, mpc = MLoop\<rparr>],
      callers = [\<lparr>ctx = Some ''gone'', cpc = CSelect\<rparr>],
      refillers = [], panicked = False\<rparr>"



subsection \<open>States of a call that arrives cancelled\<close>

definition st_called :: sys where
  "st_called =
     \<lparr>lim = \<lparr>maxTokens = 1, refillDuration = 1, numConcurrent = 0\<rparr>,
      managers = [],
      callers = [\<lparr>ctx = Some ''gone'', cpc = CEntry\<rparr>],
      refillers = [], panicked = False\<rparr>"

definition st2_late :: sys where
  "st2_late =
     \<lparr>lim = \<lparr>maxTokens = 2, refillDuration = 1, numConcurrent = 2\<rparr>,
      managers = [\<lparr>tokenCount = 2, mpc = MLoop\<rparr>],
      callers = [\<lparr>ctx = None, cpc = CSelect\<rparr>, \<lparr>ctx = Some ''gone'', cpc = CEntry\<rparr>],
      refillers = [], panicked = False\<rparr>"

definition st2_late_gone :: sys where
  "st2_late_gone =
     \<lparr>lim = \<lparr>maxTokens = 2, refillDuration = 1, numConcurrent = 2\<rparr>,
      managers = [\<lparr>tokenCount = 2, mpc = MLoop\<rparr>],
      callers = [\<lparr>ctx = None, cpc = CSelect\<rparr>,
                 \<lparr>ctx = Some ''gone'', cpc = CReturned (Some ''gone'')\<rparr>],
      refillers = [], panicked = False\<rparr>"

subsection \<open>Capacity 0\<close>

definition zero_inv :: "sys \<Rightarrow> bool" where
  "zero_inv s =
     (maxTokens (lim s) = 0 \<and> refillers s = [] \<and> \<not> panicked s \<and>
      (\<forall>j < length (managers s).
         tokenCount (managers s ! j) = 0 \<and>
         (mpc (managers s ! j) = MLoop \<or> mpc (managers s ! j) = MRecv)) \<and>
      (\<forall>i < length (callers s).
         cpc (callers s ! i) \<noteq> CGotToken \<and> cpc (callers s ! i) \<noteq> CReturned None))"

definition st0_full :: sys where
  "st0_full =
     \<lparr>lim = \<lparr>maxTokens = 0, refillDuration = 1, numConcurrent = 2\<rparr>,
      managers = [\<lparr>tokenCount = 0, mpc = MLoop\<rparr>],
      callers = [\<lparr>ctx = None, cpc = CSelect\<rparr>],
      refillers = [], panicked = False\<rparr>"

definition st0_wait :: sys where
  "st0_wait =
     \<lparr>lim = \<lparr>maxTokens = 0, refillDuration = 1, numConcurrent = 2\<rparr>,
      managers = [\<lparr>tokenCount = 0, mpc = MRecv\<rparr>],
      callers = [\<lparr>ctx = None, cpc = CSelect\<rparr>],
      refillers = [], panicked = False\<rparr>"

definition st0_fired :: sys where
  "st0_fired =
     \<lparr>lim = \<lparr>maxTokens = 0, refillDuration = 1, numConcurrent = 2\<rparr>,
      managers = [\<lparr>tokenCount = 0, mpc = MRecv\<rparr>],
      callers = [\<lparr>ctx = Some ''gone'', cpc = CSelect\<rparr>],
      refillers = [], panicked = False\<rparr>"

definition st0_cancelled :: sys where
  "st0_cancelled =
     \<lparr>lim = \<lparr>maxTokens = 0, refillDuration = 1, numConcurrent = 2\<rparr>,
      managers = [\<lparr>tokenCount = 0, mpc = MRecv\<rparr>],
      callers = [\<lparr>ctx = Some ''gone'', cpc = CCancelled\<rparr>],
      refillers = [], panicked = False\<rparr>"

text \<open>After \<open>[Call (Some ''gone''), Enter 0, TakeCancel 0, ExitCancel 0]\<close> at capacity 0:
  the manager at its switch with level 0, which is also the capacity, and participant
  count 1; and the state after its switch.\<close>

definition st0_idle :: sys where
  "st0_idle =
     \<lparr>lim = \<lparr>maxTokens = 0, refillDuration = 1, numConcurrent = 1\<rparr>,
      managers = [\<lparr>tokenCount = 0, mpc = MLoop\<rparr>],
      callers = [\<lparr>ctx = Some ''gone'', cpc = CReturned (Some ''gone'')\<rparr>],
      refillers = [], panicked = False\<rparr>"

definition st0_stuck :: sys where
  "st0_stuck =
     \<lparr>lim = \<lparr>maxTokens = 0, refillDuration = 1, numConcurrent = 1\<rparr>,
      managers = [\<lparr>tokenCount = 0, mpc = MRecv\<rparr>],
      callers = [\<lparr>ctx = Some ''gone'', cpc = CReturned (Some ''gone'')\<rparr>],
      refillers = [], panicked = False\<rparr>"

subsection \<open>States around a cancellation\<close>

definition stc_offer :: sys where
  "stc_offer =
     \<lparr>lim = \<lparr>maxTokens = 1, refillDuration = 1, numConcurrent = 2\<rparr>,
      managers = [\<lparr>tokenCount = 1, mpc = MSend\<rparr>],
      callers = [\<lparr>ctx = Some ''gone'', cpc = CSelect\<rparr>],
      refillers = [], panicked = False\<rparr>"

definition stc_left :: sys where
  "stc_left =
     \<lparr>lim = \<lparr>maxTokens = 1, refillDuration = 1, numConcurrent = 1\<rparr>,
      managers = [\<lparr>tokenCount = 1, mpc = MSend\<rparr>],
      callers = [\<lparr>ctx = Some ''gone'', cpc = CReturned (Some ''gone'')\<rparr>],
      refillers = [], panicked = False\<rparr>"

definition stc_next :: sys where
  "stc_next =
     \<lparr>lim = \<lparr>maxTokens = 1, refillDuration = 1, numConcurrent = 2\<rparr>,
      managers = [\<lparr>tokenCount = 0, mpc = MLoop\<rparr>],
      callers = [\<lparr>ctx = Some ''gone'', cpc = CReturned (Some ''gone'')\<rparr>,
                 \<lparr>ctx = None, cpc = CGotToken\<rparr>],
      refillers = [RStart], panicked = False\<rparr>"

text \<open>The state in which the manager has returned after the cancellation and the next
  call has started a new one and taken its token.\<close>

definition stc_restart :: sys where
  "stc_restart =
     \<lparr>lim = \<lparr>maxTokens = 1, refillDuration = 1, numConcurrent = 2\<rparr>,
      managers = [\<lparr>tokenCount = 1, mpc = MReturned\<rparr>, \<lparr>tokenCount = 0, mpc = MLoop\<rparr>],
      callers = [\<lparr>ctx = Some ''gone'', cpc = CReturned (Some ''gone'')\<rparr>,
                 \<lparr>ctx = None, cpc = CGotToken\<rparr>],
      refillers = [RStart], panicked = False\<rparr>"

subsection \<open>Draining a full reservoir\<close>

text \<open>A schedule for a limiter of capacity \<open>n\<close>: \<open>n + 1\<close> calls arrive and enter, then
  the manager serves the first \<open>n\<close> of them, one after the other, and looks at its level
  again. The states it passes through have \<open>d\<close> calls served, \<open>w\<close> calls waiting and
  the manager at \<open>p\<close>.\<close>

fun arrive :: "nat \<Rightarrow> action list" where
  "arrive 0 = []"
| "arrive (Suc k) = arrive k @ [Call None, Enter k]"

fun serve :: "nat \<Rightarrow> action list" where
  "serve 0 = []"
| "serve (Suc d) = serve d @ [Switch 0, Dispense 0 d, ExitOk d]"

definition admit_all :: "nat \<Rightarrow> action list" where
  "admit_all n = arrive (Suc n) @ serve n @ [Switch 0]"

definition is_tick :: "action \<Rightarrow> bool" where
  "is_tick a = (case a of Tick k \<Rightarrow> True | _ \<Rightarrow> False)"

definition queue_state :: "nat \<Rightarrow> int \<Rightarrow> nat \<Rightarrow> nat \<Rightarrow> mpc \<Rightarrow> sys" where
  "queue_state n rd d w p =
     \<lparr>lim = \<lparr>maxTokens = int n, refillDuration = rd, numConcurrent = 1 + int w\<rparr>,
      managers = [\<lparr>tokenCount = int n - int d, mpc = p\<rparr>],
      callers = replicate d \<lparr>ctx = None, cpc = CReturned None\<rparr> @
                replicate w \<lparr>ctx = None, cpc = CSelect\<rparr>,
      refillers = (if d = 0 then [] else [RStart]), panicked = False\<rparr>"

text \<open>What holds along a run in which no ticker fires: no scheduler offers a token, and
  the level of the running manager and the number of admitted calls add up to the
  capacity.\<close>

definition no_offer :: "sys \<Rightarrow> bool" where
  "no_offer s = (\<forall>k < length (refillers s). refillers s ! k \<noteq> RSelect)"

definition tokens_inv :: "nat \<Rightarrow> sys \<Rightarrow> bool" where
  "tokens_inv n s =
     ((\<forall>j < length (managers s). running (managers s ! j) \<longrightarrow>
         tokenCount (managers s ! j) + count_if admitted (callers s) = int n) \<and>
      (count_if running (managers s) = 0 \<longrightarrow> count_if admitted (callers s) = 0))"

definition quiet_inv :: "nat \<Rightarrow> sys \<Rightarrow> bool" where
  "quiet_inv n s =
     (count_inv s \<and> callers_inv s \<and> level_inv (int n) s \<and> no_offer s \<and> tokens_inv n s)"

text \<open>The state the schedule ends in, for capacity 2 and period 1.\<close>

definition st2_drained :: sys where
  "st2_drained =
     \<lparr>lim = \<lparr>maxTokens = 2, refillDuration = 1, numConcurrent = 2\<rparr>,
      managers = [\<lparr>tokenCount = 0, mpc = MRecv\<rparr>],
      callers = [\<lparr>ctx = None, cpc = CReturned None\<rparr>, \<lparr>ctx = None, cpc = CReturned None\<rparr>,
                 \<lparr>ctx = None, cpc = CSelect\<rparr>],
      refillers = [RStart], panicked = False\<rparr>"

section \<open>Lemmas\<close>

lemmas sets = set_count_def set_cpc_def set_manager_def set_rpc_def

subsection \<open>Runs\<close>

lemma step_fire: "step a s = Some t \<Longrightarrow> fire a s = Some t"
  by (simp add: step_def split: if_splits)

lemma run_inv:
  assumes "run as s = Some t" and "P s"
    and "\<And>a u v. P u \<Longrightarrow> step a u = Some v \<Longrightarrow> P v"
  shows "P t"
  using assms(1,2)
proof (induction as arbitrary: s)
  case Nil
  then show ?case by simp
next
  case (Cons a as)
  then obtain u where u: "step a s = Some u" "run as u = Some t"
    by (auto split: option.splits)
  from assms(3) [OF Cons.prems(2) u(1)] have "P u" .
  from Cons.IH [OF u(2) this] show ?case .
qed

lemma reach_st_idle: "reach (NewReservoirLimiter 1 1) st_idle"
  unfolding reach_def
  by (rule exI [of _ "[Call (Some ''gone''), Enter 0, TakeCancel 0, ExitCancel 0]"])
    (simp add: st_idle_def init_def NewReservoirLimiter_def step_def limit_enter_def sets)

lemma step_st_idle: "step (Switch 0) st_idle = Some st_down"
  by (simp add: st_idle_def st_down_def step_def manager_switch_def sets)

subsection \<open>Counting\<close>

lemma count_if_Nil [simp]: "count_if P [] = 0"
  by (simp add: count_if_def)

lemma count_if_append [simp]: "count_if P (xs @ ys) = count_if P xs + count_if P ys"
  by (simp add: count_if_def)

lemma count_if_single [simp]: "count_if P [x] = (if P x then 1 else 0)"
  by (simp add: count_if_def)

lemma count_if_nonneg: "0 \<le> count_if P xs"
  by (simp add: count_if_def)

lemma count_if_update:
  "i < length xs \<Longrightarrow>
   count_if P (xs[i := y]) =
     count_if P xs - (if P (xs ! i) then 1 else 0) + (if P y then 1 else 0)"
proof (induction xs arbitrary: i)
  case Nil
  then show ?case by simp
next
  case (Cons x xs)
  show ?case
  proof (cases i)
    case 0
    then show ?thesis by (simp add: count_if_def)
  next
    case (Suc n)
    with Cons.prems have "n < length xs" by simp
    from Cons.IH [OF this] Suc show ?thesis
      by (auto simp: count_if_def split: if_splits)
  qed
qed

lemma count_if_pos: "i < length xs \<Longrightarrow> P (xs ! i) \<Longrightarrow> 0 < count_if P xs"
  by (auto simp: count_if_def filter_empty_conv)

lemma count_if_exists: "(0 < count_if P xs) = (\<exists>x\<in>set xs. P x)"
  by (auto simp: count_if_def filter_empty_conv)

subsection \<open>The participant count\<close>

lemma count_inv_init: "numConcurrent l = 0 \<Longrightarrow> count_inv (init l)"
  by (simp add: count_inv_def init_def)

lemma count_inv_fire:
  assumes "count_inv s" and "fire a s = Some t"
  shows "count_inv t"
proof (cases a)
  case (Call c)
  with assms show ?thesis by (auto simp: count_inv_def inside_def)
next
  case (Cancel i e)
  with assms show ?thesis
    by (auto simp: count_inv_def count_if_update inside_def split: if_splits)
next
  case (Enter i)
  with assms count_if_nonneg [of running "managers s"] count_if_nonneg [of inside "callers s"]
  show ?thesis
    by (auto simp: count_inv_def count_if_update inside_def running_def limit_enter_def sets
        split: if_splits)
next
  case (TakeCancel i)
  with assms show ?thesis
    by (auto simp: count_inv_def count_if_update inside_def sets split: if_splits)
next
  case (ExitOk i)
  with assms have i: "i < length (callers s)" "inside (callers s ! i)"
    by (auto simp: inside_def split: if_splits)
  from count_if_pos [of i "callers s" inside, OF i] ExitOk assms show ?thesis
    by (auto simp: count_inv_def count_if_update inside_def sets split: if_splits)
next
  case (ExitCancel i)
  with assms have i: "i < length (callers s)" "inside (callers s ! i)"
    by (auto simp: inside_def split: if_splits)
  from count_if_pos [of i "callers s" inside, OF i] ExitCancel assms show ?thesis
    by (auto simp: count_inv_def count_if_update inside_def sets split: if_splits)
next
  case (Switch j)
  with assms have j: "j < length (managers s)" "running (managers s ! j)"
    by (auto simp: running_def split: if_splits)
  from count_if_pos [of j "managers s" running, OF j] Switch assms show ?thesis
    by (auto simp: count_inv_def count_if_update running_def manager_switch_def Let_def sets
        split: if_splits)
next
  case (Dispense j i)
  with assms show ?thesis
    by (auto simp: count_inv_def count_if_update running_def inside_def send_ready_def
        dispense_def Let_def sets split: if_splits)
next
  case (StartTicker k)
  with assms show ?thesis
    by (auto simp: count_inv_def start_ticker_def sets split: if_splits)
next
  case (Tick k)
  with assms show ?thesis
    by (auto simp: count_inv_def sets split: if_splits)
next
  case (Refill k j)
  with assms show ?thesis
    by (auto simp: count_inv_def count_if_update running_def recv_ready_def refill_def sets
        split: if_splits)
next
  case (GiveUp k)
  with assms show ?thesis
    by (auto simp: count_inv_def sets split: if_splits)
qed

lemma count_inv_reach: "numConcurrent l = 0 \<Longrightarrow> reach l s \<Longrightarrow> count_inv s"
  unfolding reach_def
  by (auto intro: run_inv [where P = count_inv] count_inv_init count_inv_fire dest: step_fire)

lemma only_exit:
  assumes "fire a s = Some t" and "j < length (managers s)"
    and "running (managers s ! j)" and "\<not> running (managers t ! j)"
  shows "a = Switch j \<and> mpc (managers s ! j) = MLoop \<and>
         tokenCount (managers s ! j) = maxTokens (lim s) \<and>
         numConcurrent (lim s) = 1 \<and> numConcurrent (lim t) = 0"
  using assms
  by (cases a)
    (auto simp: running_def limit_enter_def manager_switch_def dispense_def refill_def
      start_ticker_def Let_def sets nth_append nth_list_update split: if_splits)

lemma enter_effect:
  assumes "fire (Enter i) s = Some t"
  shows "if numConcurrent (lim s) = 0
         then numConcurrent (lim t) = 2 \<and>
              managers t = managers s @ [\<lparr>tokenCount = maxTokens (lim s), mpc = MLoop\<rparr>]
         else numConcurrent (lim t) = numConcurrent (lim s) + 1 \<and> managers t = managers s"
  using assms by (auto simp: limit_enter_def sets split: if_splits)

lemma exit_effect:
  assumes "fire a s = Some t" and "a = ExitOk i \<or> a = ExitCancel i"
  shows "numConcurrent (lim t) = numConcurrent (lim s) - 1 \<and> managers t = managers s"
  using assms by (auto simp: sets split: if_splits)

lemma started_only_by_enter:
  assumes "fire a s = Some t" and "length (managers t) \<noteq> length (managers s)"
  shows "\<exists>i. a = Enter i \<and> numConcurrent (lim s) = 0"
  using assms
  by (cases a)
    (auto simp: limit_enter_def manager_switch_def dispense_def refill_def
      start_ticker_def Let_def sets split: if_splits)

subsection \<open>The level\<close>

lemma level_inv_init: "maxTokens l = mt \<Longrightarrow> level_inv mt (init l)"
  by (simp add: level_inv_def init_def)

lemma level_inv_fire:
  assumes "0 \<le> mt" and "level_inv mt s" and "fire a s = Some t"
  shows "level_inv mt t"
proof (cases a)
  case (Enter i)
  with assms show ?thesis
    by (auto simp: level_inv_def level_ok_def limit_enter_def sets nth_append
        split: if_splits)
next
  case (Switch j)
  with assms show ?thesis
    by (auto simp: level_inv_def level_ok_def manager_switch_def Let_def sets nth_list_update
        split: if_splits)
next
  case (Dispense j i)
  with assms have "level_ok mt (managers s ! j)" "send_ready (managers s ! j)"
    by (auto simp: level_inv_def split: if_splits)
  then have "level_ok mt \<lparr>tokenCount = tokenCount (managers s ! j) - 1, mpc = MLoop\<rparr>"
    and "mt \<noteq> 0"
    by (auto simp: level_ok_def send_ready_def)
  with Dispense assms show ?thesis
    by (auto simp: level_inv_def dispense_def Let_def sets nth_list_update split: if_splits)
next
  case (Refill k j)
  with assms have "level_ok mt (managers s ! j)" "recv_ready (managers s ! j)" "mt \<noteq> 0"
    by (auto simp: level_inv_def split: if_splits)
  then have "level_ok mt \<lparr>tokenCount = tokenCount (managers s ! j) + 1, mpc = MLoop\<rparr>"
    using assms(1) by (auto simp: level_ok_def recv_ready_def)
  with Refill assms show ?thesis
    by (auto simp: level_inv_def refill_def sets nth_list_update split: if_splits)
qed (use assms in \<open>auto simp: level_inv_def start_ticker_def sets split: if_splits\<close>)

lemma level_inv_reach:
  assumes "0 \<le> maxTokens l" and "reach l s"
  shows "level_inv (maxTokens l) s"
proof -
  from assms(2) obtain as where "run as (init l) = Some s"
    by (auto simp: reach_def)
  then show ?thesis
  proof (rule run_inv)
    show "level_inv (maxTokens l) (init l)" by (simp add: level_inv_init)
  next
    fix a u v
    assume "level_inv (maxTokens l) u" and "step a u = Some v"
    with assms(1) show "level_inv (maxTokens l) v"
      by (blast intro: level_inv_fire step_fire)
  qed
qed

lemma manager_moves:
  assumes "fire a s = Some t" and "j < length (managers s)"
    and "managers t ! j \<noteq> managers s ! j"
  shows "case mpc (managers s ! j) of
           MLoop \<Rightarrow> a = Switch j
         | MRecv \<Rightarrow> \<exists>k. a = Refill k j
         | MSend \<Rightarrow> \<exists>i. a = Dispense j i
         | MSelect \<Rightarrow> (\<exists>k. a = Refill k j) \<or> (\<exists>i. a = Dispense j i)
         | MReturned \<Rightarrow> False"
  using assms
  by (cases a)
    (auto simp: limit_enter_def manager_switch_def dispense_def refill_def start_ticker_def
      send_ready_def recv_ready_def Let_def sets nth_append nth_list_update
      split: if_splits mpc.splits)

lemma reach_st_empty: "reach (NewReservoirLimiter 1 1) st_empty"
  unfolding reach_def
  by (rule exI [of _ "[Call None, Enter 0, Switch 0, Dispense 0 0, ExitOk 0, Switch 0,
        StartTicker 0, Tick 0]"])
    (simp add: st_empty_def init_def NewReservoirLimiter_def step_def limit_enter_def
      manager_switch_def dispense_def start_ticker_def send_ready_def sets)

lemma step_st_empty: "step (Refill 0 0) st_empty = Some st_refilled"
  by (simp add: st_empty_def st_refilled_def step_def refill_def recv_ready_def sets)

lemma run_append: "run (as @ bs) s = (case run as s of None \<Rightarrow> None | Some t \<Rightarrow> run bs t)"
  by (induction as arbitrary: s) (auto split: option.splits)

lemma reach_step: "reach l s \<Longrightarrow> step a s = Some t \<Longrightarrow> reach l t"
proof -
  assume "reach l s" and st: "step a s = Some t"
  then obtain as where "run as (init l) = Some s" by (auto simp: reach_def)
  with st have "run (as @ [a]) (init l) = Some t" by (simp add: run_append)
  then show ?thesis unfolding reach_def by blast
qed

lemma new_manager_full:
  assumes "fire a s = Some t" and "length (managers s) \<le> j" and "j < length (managers t)"
  shows "managers t ! j = \<lparr>tokenCount = maxTokens (lim s), mpc = MLoop\<rparr>"
  using assms
  by (cases a)
    (auto simp: limit_enter_def manager_switch_def dispense_def refill_def start_ticker_def
      Let_def sets nth_append split: if_splits)

lemma refill_effect:
  assumes "fire (Refill k j) s = Some t"
  shows "managers t ! j = \<lparr>tokenCount = tokenCount (managers s ! j) + 1, mpc = MLoop\<rparr> \<and>
         refillers t = (refillers s)[k := RWait] \<and> callers t = callers s \<and> lim t = lim s"
  using assms by (auto simp: refill_def sets split: if_splits)

subsection \<open>The manager\<close>

lemma switch_enabled:
  "\<not> panicked s \<Longrightarrow> j < length (managers s) \<Longrightarrow> mpc (managers s ! j) = MLoop \<Longrightarrow>
   step (Switch j) s = Some (manager_switch j s)"
  by (simp add: step_def)

lemma manager_level:
  assumes "0 \<le> mt" and "reach (NewReservoirLimiter mt rd) s" and "j < length (managers s)"
  shows "level_ok mt (managers s ! j) \<and> maxTokens (lim s) = mt"
  using level_inv_reach [of "NewReservoirLimiter mt rd" s] assms
  by (simp add: level_inv_def NewReservoirLimiter_def)

subsection \<open>Who moves a call, who moves a scheduler\<close>

lemma caller_moves:
  assumes "fire a s = Some t" and "i < length (callers s)"
    and "cpc (callers t ! i) \<noteq> cpc (callers s ! i)"
  shows "case cpc (callers s ! i) of
           CEntry \<Rightarrow> a = Enter i \<and> cpc (callers t ! i) = CSelect
         | CSelect \<Rightarrow>
             a = TakeCancel i \<and> ctx (callers s ! i) \<noteq> None \<and>
               cpc (callers t ! i) = CCancelled \<or>
             (\<exists>j. a = Dispense j i) \<and> cpc (callers t ! i) = CGotToken
         | CGotToken \<Rightarrow> a = ExitOk i \<and> cpc (callers t ! i) = CReturned None
         | CCancelled \<Rightarrow>
             a = ExitCancel i \<and> cpc (callers t ! i) = CReturned (ctx (callers s ! i))
         | CReturned r \<Rightarrow> False"
  using assms
  by (cases a)
    (auto simp: limit_enter_def manager_switch_def dispense_def refill_def start_ticker_def
      Let_def sets nth_append nth_list_update split: if_splits cpc.splits)

lemma refiller_moves:
  assumes "fire a s = Some t" and "k < length (refillers s)"
    and "refillers t ! k \<noteq> refillers s ! k"
  shows "case refillers s ! k of
           RStart \<Rightarrow> a = StartTicker k \<and> refillers t ! k = RWait
         | RWait \<Rightarrow> a = Tick k \<and> refillers t ! k = RSelect
         | RSelect \<Rightarrow>
             (\<exists>j. a = Refill k j) \<and> refillers t ! k = RWait \<or>
             a = GiveUp k \<and> refillers t ! k = RStopped
         | RStopped \<Rightarrow> False"
  using assms
  by (cases a)
    (auto simp: limit_enter_def manager_switch_def dispense_def refill_def start_ticker_def
      Let_def sets nth_append nth_list_update split: if_splits rpc.splits)

lemma refillers_grow: "fire a s = Some t \<Longrightarrow> length (refillers s) \<le> length (refillers t)"
  by (cases a)
    (auto simp: limit_enter_def manager_switch_def dispense_def refill_def start_ticker_def
      Let_def sets split: if_splits)

lemma stopped_step:
  assumes "fire a s = Some t" and "k < length (refillers s)" and "refillers s ! k = RStopped"
  shows "k < length (refillers t) \<and> refillers t ! k = RStopped"
proof -
  from refillers_grow [OF assms(1)] assms(2) have "k < length (refillers t)" by simp
  moreover have "refillers t ! k = RStopped"
  proof (rule ccontr)
    assume "refillers t ! k \<noteq> RStopped"
    with refiller_moves [OF assms(1,2)] assms(3) show False by simp
  qed
  ultimately show ?thesis by simp
qed

lemma stopped_forever:
  assumes "run as s = Some t" and "k < length (refillers s)" and "refillers s ! k = RStopped"
  shows "k < length (refillers t) \<and> refillers t ! k = RStopped"
  using assms(1)
proof (rule run_inv)
  show "k < length (refillers s) \<and> refillers s ! k = RStopped" using assms(2,3) by simp
next
  fix a u v
  assume "k < length (refillers u) \<and> refillers u ! k = RStopped" and "step a u = Some v"
  then show "k < length (refillers v) \<and> refillers v ! k = RStopped"
    using stopped_step [OF step_fire] by blast
qed

subsection \<open>Transfers\<close>

lemmas moves = limit_enter_def manager_switch_def dispense_def refill_def start_ticker_def
  send_ready_def recv_ready_def

lemma reach_st2_full: "reach (NewReservoirLimiter 2 1) st2_full"
  unfolding reach_def
  by (rule exI [of _ "[Call None, Enter 0]"])
    (simp add: st2_full_def init_def NewReservoirLimiter_def step_def moves sets)

lemma reach_st2_send: "reach (NewReservoirLimiter 2 1) st2_send"
  unfolding reach_def
  by (rule exI [of _ "[Call None, Enter 0, Switch 0]"])
    (simp add: st2_send_def init_def NewReservoirLimiter_def step_def moves sets)

lemma reach_st2_partial: "reach (NewReservoirLimiter 2 1) st2_partial"
  unfolding reach_def
  by (rule exI [of _ "[Call None, Enter 0, Switch 0, Dispense 0 0, ExitOk 0, StartTicker 0,
        Tick 0, Call None, Enter 1]"])
    (simp add: st2_partial_def init_def NewReservoirLimiter_def step_def moves sets)

lemma reach_st2_race: "reach (NewReservoirLimiter 2 1) st2_race"
  unfolding reach_def
  by (rule exI [of _ "[Call None, Enter 0, Switch 0, Dispense 0 0, ExitOk 0, StartTicker 0,
        Tick 0, Call None, Enter 1, Switch 0]"])
    (simp add: st2_race_def init_def NewReservoirLimiter_def step_def moves sets)

lemma refill_step:
  assumes "\<not> panicked s" and "j < length (managers s)" and "recv_ready (managers s ! j)"
  shows "step (Refill k j) s =
     (if k < length (refillers s) \<and> refillers s ! k = RSelect
      then Some (s\<lparr>managers := (managers s)
                     [j := \<lparr>tokenCount = tokenCount (managers s ! j) + 1, mpc = MLoop\<rparr>],
                   refillers := (refillers s)[k := RWait]\<rparr>)
      else None)"
  using assms by (simp add: step_def refill_def sets)

lemma dispense_step:
  assumes "\<not> panicked s" and "j < length (managers s)" and "send_ready (managers s ! j)"
  shows "step (Dispense j i) s =
     (if i < length (callers s) \<and> cpc (callers s ! i) = CSelect
      then Some (s\<lparr>managers := (managers s)
                     [j := \<lparr>tokenCount = tokenCount (managers s ! j) - 1, mpc = MLoop\<rparr>],
                   callers := (callers s)[i := (callers s ! i)\<lparr>cpc := CGotToken\<rparr>],
                   refillers :=
                     (if mpc (managers s ! j) = MSend then refillers s @ [RStart]
                      else refillers s)\<rparr>)
      else None)"
  using assms by (simp add: step_def dispense_def Let_def sets)

subsection \<open>Calls\<close>

lemma callers_inv_init: "callers_inv (init l)"
  by (simp add: callers_inv_def init_def)

lemma callers_inv_fire:
  assumes "callers_inv s" and "fire a s = Some t"
  shows "callers_inv t"
  using assms
  by (cases a)
    (auto simp: callers_inv_def caller_ok_def moves sets Let_def nth_append nth_list_update
      split: if_splits cpc.splits)

lemma callers_inv_reach: "reach l s \<Longrightarrow> callers_inv s"
  unfolding reach_def
  by (auto intro: run_inv [where P = callers_inv] callers_inv_init callers_inv_fire
      dest: step_fire)

lemma reach_stc_wait: "reach (NewReservoirLimiter 1 1) stc_wait"
  unfolding reach_def
  by (rule exI [of _ "[Call None, Enter 0, Cancel 0 ''gone'']"])
    (simp add: stc_wait_def init_def NewReservoirLimiter_def step_def moves sets)




subsection \<open>The bookkeeping of a call\<close>

lemma reach_st_called: "reach (NewReservoirLimiter 1 1) st_called"
  unfolding reach_def
  by (rule exI [of _ "[Call (Some ''gone'')]"])
    (simp add: st_called_def init_def NewReservoirLimiter_def step_def)

lemma reach_st2_late: "reach (NewReservoirLimiter 2 1) st2_late"
  unfolding reach_def
  by (rule exI [of _ "[Call None, Enter 0, Call (Some ''gone'')]"])
    (simp add: st2_late_def init_def NewReservoirLimiter_def step_def moves sets)

lemma capacity_fire: "fire a s = Some t \<Longrightarrow> maxTokens (lim t) = maxTokens (lim s)"
  by (cases a) (auto simp: moves sets Let_def split: if_splits)

lemma capacity_reach:
  assumes "reach l s"
  shows "maxTokens (lim s) = maxTokens l"
proof -
  from assms obtain as where "run as (init l) = Some s" by (auto simp: reach_def)
  then show ?thesis
  proof (rule run_inv)
    show "maxTokens (lim (init l)) = maxTokens l" by (simp add: init_def)
  next
    fix a u v
    assume "maxTokens (lim u) = maxTokens l" and "step a u = Some v"
    with capacity_fire [OF step_fire] show "maxTokens (lim v) = maxTokens l" by simp
  qed
qed

lemma count_as_filters:
  "count_inv s \<Longrightarrow>
   numConcurrent (lim s) =
     int (length (filter running (managers s))) + int (length (filter inside (callers s)))"
  by (simp add: count_inv_def count_if_def)

subsection \<open>Capacity 0\<close>

lemma zero_inv_init: "maxTokens l = 0 \<Longrightarrow> zero_inv (init l)"
  by (simp add: zero_inv_def init_def)

lemma zero_inv_fire:
  assumes "zero_inv s" and "callers_inv s" and "fire a s = Some t"
  shows "zero_inv t"
proof (cases a)
  case (ExitCancel i)
  with assms(3) have i: "i < length (callers s)" "cpc (callers s ! i) = CCancelled"
    by (auto split: if_splits)
  with assms(2) have "ctx (callers s ! i) \<noteq> None"
    by (auto simp: callers_inv_def caller_ok_def)
  with ExitCancel assms(1,3) show ?thesis
    by (auto simp: zero_inv_def sets nth_list_update split: if_splits)
qed (use assms(1,3) in \<open>auto simp: zero_inv_def moves sets Let_def nth_append nth_list_update
      split: if_splits\<close>)

lemma zero_inv_reach:
  assumes "maxTokens l = 0" and "reach l s"
  shows "zero_inv s"
proof -
  from assms(2) obtain as where "run as (init l) = Some s" by (auto simp: reach_def)
  then have "zero_inv s \<and> callers_inv s"
  proof (rule run_inv)
    show "zero_inv (init l) \<and> callers_inv (init l)"
      using assms(1) by (simp add: zero_inv_init callers_inv_init)
  next
    fix a u v
    assume "zero_inv u \<and> callers_inv u" and "step a u = Some v"
    then show "zero_inv v \<and> callers_inv v"
      using zero_inv_fire callers_inv_fire step_fire by blast
  qed
  then show ?thesis by simp
qed

lemma reach_st0_full: "reach (NewReservoirLimiter 0 1) st0_full"
  unfolding reach_def
  by (rule exI [of _ "[Call None, Enter 0]"])
    (simp add: st0_full_def init_def NewReservoirLimiter_def step_def moves sets)

lemma reach_st0_wait: "reach (NewReservoirLimiter 0 1) st0_wait"
  unfolding reach_def
  by (rule exI [of _ "[Call None, Enter 0, Switch 0]"])
    (simp add: st0_wait_def init_def NewReservoirLimiter_def step_def moves sets)

lemma reach_st0_idle: "reach (NewReservoirLimiter 0 1) st0_idle"
  unfolding reach_def
  by (rule exI [of _ "[Call (Some ''gone''), Enter 0, TakeCancel 0, ExitCancel 0]"])
    (simp add: st0_idle_def init_def NewReservoirLimiter_def step_def moves sets)

lemma reach_st0_fired: "reach (NewReservoirLimiter 0 1) st0_fired"
  unfolding reach_def
  by (rule exI [of _ "[Call None, Enter 0, Switch 0, Cancel 0 ''gone'']"])
    (simp add: st0_fired_def init_def NewReservoirLimiter_def step_def moves sets)

subsection \<open>Cancellation\<close>

lemma reach_stc_offer: "reach (NewReservoirLimiter 1 1) stc_offer"
  unfolding reach_def
  by (rule exI [of _ "[Call None, Enter 0, Cancel 0 ''gone'', Switch 0]"])
    (simp add: stc_offer_def init_def NewReservoirLimiter_def step_def moves sets)

lemma two_participants:
  assumes "count_inv s" and "j < length (managers s)" and "running (managers s ! j)"
    and "i < length (callers s)" and "inside (callers s ! i)"
  shows "2 \<le> numConcurrent (lim s)"
  using assms(1) count_if_pos [of j "managers s" running, OF assms(2,3)]
    count_if_pos [of i "callers s" inside, OF assms(4,5)]
  by (simp add: count_inv_def)

subsection \<open>Draining a full reservoir\<close>

lemma replicate_snoc_nth: "(replicate k a @ [b]) ! k = b"
  by (simp add: nth_append)

lemma replicate_snoc_update: "(replicate k a @ [b])[k := a] = replicate (Suc k) a"
  by (simp add: list_update_append replicate_append_same)

lemma arrive_run:
  "run (arrive (Suc k)) (init (NewReservoirLimiter (int n) rd)) =
     Some (queue_state n rd 0 (Suc k) MLoop)"
proof (induction k)
  case 0
  show ?case
    by (simp add: init_def NewReservoirLimiter_def queue_state_def step_def limit_enter_def
        sets)
next
  case (Suc k)
  have "run [Call None, Enter (Suc k)] (queue_state n rd 0 (Suc k) MLoop) =
     Some (queue_state n rd 0 (Suc (Suc k)) MLoop)"
    using replicate_snoc_nth [of "Suc k" "\<lparr>ctx = None, cpc = CSelect\<rparr>"
        "\<lparr>ctx = None, cpc = CEntry\<rparr>"]
      replicate_snoc_update [of "Suc k" "\<lparr>ctx = None, cpc = CSelect\<rparr>"
        "\<lparr>ctx = None, cpc = CEntry\<rparr>"]
    by (simp add: queue_state_def step_def limit_enter_def sets)
  with Suc.IH show ?case
    by (simp add: run_append del: arrive.simps(2) add: arrive.simps(2) [of "Suc k"])
qed

lemma serve_step:
  assumes "d < n"
  shows "run [Switch 0, Dispense 0 d, ExitOk d] (queue_state n rd d (Suc w) MLoop) =
     Some (queue_state n rd (Suc d) w MLoop)"
proof (cases "d = 0")
  case True
  with assms show ?thesis
    by (simp add: queue_state_def step_def manager_switch_def dispense_def send_ready_def
        Let_def sets)
next
  case False
  with assms show ?thesis
    by (simp add: queue_state_def step_def manager_switch_def dispense_def send_ready_def
        Let_def sets nth_append list_update_append replicate_append_same)
qed

lemma serve_run:
  "d \<le> n \<Longrightarrow>
   run (serve d) (queue_state n rd 0 (d + w) MLoop) = Some (queue_state n rd d w MLoop)"
proof (induction d arbitrary: w)
  case 0
  show ?case by simp
next
  case (Suc d)
  then have "d \<le> n" and lt: "d < n" by simp_all
  from Suc.IH [OF this(1), of "Suc w"]
  have "run (serve d) (queue_state n rd 0 (Suc d + w) MLoop) =
      Some (queue_state n rd d (Suc w) MLoop)" by simp
  with serve_step [OF lt, of rd w] show ?case
    by (simp add: run_append)
qed

lemma admit_all_run:
  "run (admit_all n) (init (NewReservoirLimiter (int n) rd)) =
     Some (queue_state n rd n 1 MRecv)"
proof -
  have a: "run (arrive (Suc n)) (init (NewReservoirLimiter (int n) rd)) =
      Some (queue_state n rd 0 (n + 1) MLoop)"
    using arrive_run [of n n rd] by simp
  have b: "run (serve n) (queue_state n rd 0 (n + 1) MLoop) =
      Some (queue_state n rd n 1 MLoop)"
    by (rule serve_run) simp
  have c: "run [Switch 0] (queue_state n rd n 1 MLoop) = Some (queue_state n rd n 1 MRecv)"
    by (simp add: queue_state_def step_def manager_switch_def sets)
  from a b c show ?thesis
    unfolding admit_all_def by (simp add: run_append del: arrive.simps)
qed

lemma count_if_Cons: "count_if P (x # xs) = (if P x then 1 else 0) + count_if P xs"
  by (simp add: count_if_def)

lemma count_if_unique:
  "count_if P xs \<le> 1 \<Longrightarrow> i < length xs \<Longrightarrow> j < length xs \<Longrightarrow> P (xs ! i) \<Longrightarrow> P (xs ! j) \<Longrightarrow>
   i = j"
proof (induction xs arbitrary: i j)
  case Nil
  then show ?case by simp
next
  case (Cons x xs)
  show ?case
  proof (cases i)
    case 0
    show ?thesis
    proof (cases j)
      case (Suc j')
      with Cons.prems have "j' < length xs" "P (xs ! j')" by simp_all
      from count_if_pos [of j' xs P, OF this] Cons.prems(1,4) 0
      show ?thesis by (simp add: count_if_Cons)
    qed (simp add: 0)
  next
    case (Suc i')
    with Cons.prems have i': "i' < length xs" "P (xs ! i')" by simp_all
    show ?thesis
    proof (cases j)
      case 0
      from count_if_pos [of i' xs P, OF i'] Cons.prems(1,5) 0
      show ?thesis by (simp add: count_if_Cons)
    next
      case (Suc j')
      with Cons.prems have j': "j' < length xs" "P (xs ! j')" by simp_all
      from Cons.prems(1) have "count_if P xs \<le> 1"
        by (simp add: count_if_Cons split: if_splits)
      from Cons.IH [OF this i'(1) j'(1) i'(2) j'(2)] Suc \<open>i = Suc i'\<close>
      show ?thesis by simp
    qed
  qed
qed

lemma no_offer_fire:
  assumes "no_offer s" and "fire a s = Some t" and "\<not> is_tick a"
  shows "no_offer t"
  using assms
  by (cases a)
    (auto simp: no_offer_def is_tick_def moves sets Let_def nth_append nth_list_update
      split: if_splits)

lemma tokens_inv_fire:
  assumes t: "tokens_inv n s" and c: "count_inv s" and k: "callers_inv s"
    and l: "level_inv (int n) s" and o: "no_offer s" and f: "fire a s = Some t"
  shows "tokens_inv n t"
proof (cases a)
  case (Call x)
  with t f show ?thesis by (auto simp: tokens_inv_def admitted_def)
next
  case (Cancel i e)
  with t f show ?thesis
    by (auto simp: tokens_inv_def admitted_def count_if_update split: if_splits)
next
  case (Enter i)
  with f have i: "i < length (callers s)" "cpc (callers s ! i) = CEntry"
    by (auto split: if_splits)
  then have adm: "count_if admitted (callers t) = count_if admitted (callers s)"
    using Enter f by (auto simp: limit_enter_def sets admitted_def count_if_update
        split: if_splits)
  show ?thesis
  proof (cases "numConcurrent (lim s) = 0")
    case True
    with c count_if_nonneg [of running "managers s"] count_if_nonneg [of inside "callers s"]
    have "count_if running (managers s) = 0" by (simp add: count_inv_def)
    with t have z: "count_if admitted (callers s) = 0" by (simp add: tokens_inv_def)
    from True Enter f i have m: "managers t =
        managers s @ [\<lparr>tokenCount = maxTokens (lim s), mpc = MLoop\<rparr>]"
      by (auto simp: limit_enter_def sets)
    from l have cap: "maxTokens (lim s) = int n" by (simp add: level_inv_def)
    from t m z adm cap count_if_nonneg [of running "managers s"] show ?thesis
      by (auto simp: tokens_inv_def nth_append running_def)
  next
    case False
    with Enter f i have "managers t = managers s" by (auto simp: limit_enter_def sets)
    with t adm show ?thesis by (simp add: tokens_inv_def)
  qed
next
  case (TakeCancel i)
  with t f show ?thesis
    by (auto simp: tokens_inv_def admitted_def count_if_update sets split: if_splits)
next
  case (ExitOk i)
  with t f show ?thesis
    by (auto simp: tokens_inv_def admitted_def count_if_update sets split: if_splits)
next
  case (ExitCancel i)
  with f have i: "i < length (callers s)" "cpc (callers s ! i) = CCancelled"
    by (auto split: if_splits)
  with k have "ctx (callers s ! i) \<noteq> None" by (auto simp: callers_inv_def caller_ok_def)
  with t f ExitCancel show ?thesis
    by (auto simp: tokens_inv_def admitted_def count_if_update sets split: if_splits)
next
  case (Switch j)
  with f have j: "j < length (managers s)" "mpc (managers s ! j) = MLoop"
    by (auto split: if_splits)
  then have rj: "running (managers s ! j)" by (simp add: running_def)
  from count_if_pos [of j "managers s" running, OF j(1) rj] c
  have one: "count_if running (managers s) = 1" by (simp add: count_inv_def)
  from l have cap: "maxTokens (lim s) = int n" by (simp add: level_inv_def)
  from t j(1) rj have eq: "tokenCount (managers s ! j) + count_if admitted (callers s) = int n"
    by (simp add: tokens_inv_def)
  from Switch f j have cs: "callers t = callers s"
    by (auto simp: manager_switch_def Let_def sets split: if_splits)
  from Switch f j have ms: "length (managers t) = length (managers s)"
    "\<forall>j'. j' \<noteq> j \<longrightarrow> managers t ! j' = managers s ! j'"
    "tokenCount (managers t ! j) = tokenCount (managers s ! j)"
    by (auto simp: manager_switch_def Let_def sets split: if_splits)
  have first: "\<forall>j' < length (managers t). running (managers t ! j') \<longrightarrow>
      tokenCount (managers t ! j') + count_if admitted (callers t) = int n"
  proof (intro allI impI)
    fix j' assume "j' < length (managers t)" and r: "running (managers t ! j')"
    show "tokenCount (managers t ! j') + count_if admitted (callers t) = int n"
    proof (cases "j' = j")
      case True
      with ms(3) eq cs show ?thesis by simp
    next
      case False
      with ms(2) r have "running (managers s ! j')" by simp
      with t \<open>j' < length (managers t)\<close> ms(1) False ms(2) cs show ?thesis
        by (simp add: tokens_inv_def)
    qed
  qed
  have second: "count_if running (managers t) = 0 \<longrightarrow> count_if admitted (callers t) = 0"
  proof
    assume z: "count_if running (managers t) = 0"
    have "tokenCount (managers s ! j) = int n"
    proof (rule ccontr)
      assume ne: "tokenCount (managers s ! j) \<noteq> int n"
      with Switch f j cap have "running (managers t ! j)"
        by (auto simp: manager_switch_def Let_def sets running_def split: if_splits)
      with count_if_pos [of j "managers t" running] j(1) ms(1) z show False by simp
    qed
    with eq cs show "count_if admitted (callers t) = 0" by simp
  qed
  from first second show ?thesis by (simp add: tokens_inv_def)
next
  case (Dispense j i)
  with f have j: "j < length (managers s)" "send_ready (managers s ! j)"
    and i: "i < length (callers s)" "cpc (callers s ! i) = CSelect"
    by (auto split: if_splits)
  from j(2) have rj: "running (managers s ! j)" by (auto simp: send_ready_def running_def)
  from c have le: "count_if running (managers s) \<le> 1" by (simp add: count_inv_def)
  from t j(1) rj have eq: "tokenCount (managers s ! j) + count_if admitted (callers s) = int n"
    by (simp add: tokens_inv_def)
  from Dispense f j i have cs: "count_if admitted (callers t) = count_if admitted (callers s) + 1"
    by (auto simp: dispense_def Let_def sets admitted_def count_if_update split: if_splits)
  from Dispense f j i have ms: "length (managers t) = length (managers s)"
    "\<forall>j'. j' \<noteq> j \<longrightarrow> managers t ! j' = managers s ! j'"
    "managers t ! j = \<lparr>tokenCount = tokenCount (managers s ! j) - 1, mpc = MLoop\<rparr>"
    by (auto simp: dispense_def Let_def sets split: if_splits)
  have first: "\<forall>j' < length (managers t). running (managers t ! j') \<longrightarrow>
      tokenCount (managers t ! j') + count_if admitted (callers t) = int n"
  proof (intro allI impI)
    fix j' assume j': "j' < length (managers t)" and r: "running (managers t ! j')"
    show "tokenCount (managers t ! j') + count_if admitted (callers t) = int n"
    proof (cases "j' = j")
      case True
      with ms(3) eq cs show ?thesis by simp
    next
      case False
      with ms(2) r have "running (managers s ! j')" by simp
      from count_if_unique [OF le _ j(1) this rj] j' ms(1) False show ?thesis by simp
    qed
  qed
  have "running (managers t ! j)" using ms(3) by (simp add: running_def)
  from count_if_pos [of j "managers t" running, OF _ this] j(1) ms(1)
  have "0 < count_if running (managers t)" by simp
  with first show ?thesis by (simp add: tokens_inv_def)
next
  case (StartTicker x)
  with t f show ?thesis
    by (auto simp: tokens_inv_def start_ticker_def sets split: if_splits)
next
  case (Tick x)
  with t f show ?thesis by (auto simp: tokens_inv_def sets split: if_splits)
next
  case (Refill x y)
  with f o show ?thesis by (auto simp: no_offer_def split: if_splits)
next
  case (GiveUp x)
  with t f show ?thesis by (auto simp: tokens_inv_def sets split: if_splits)
qed

lemma quiet_inv_init: "quiet_inv n (init (NewReservoirLimiter (int n) rd))"
  by (simp add: quiet_inv_def count_inv_init callers_inv_init level_inv_init
      NewReservoirLimiter_def)
    (simp add: no_offer_def tokens_inv_def init_def)

lemma quiet_inv_step:
  assumes "quiet_inv n s" and "step a s = Some t" and "\<not> is_tick a"
  shows "quiet_inv n t"
proof -
  from assms(2) have f: "fire a s = Some t" by (rule step_fire)
  from assms(1) have c: "count_inv s" and k: "callers_inv s"
    and l: "level_inv (int n) s" and o: "no_offer s" and t: "tokens_inv n s"
    by (simp_all add: quiet_inv_def)
  have "0 \<le> int n" by simp
  from count_inv_fire [OF c f] callers_inv_fire [OF k f] level_inv_fire [OF this l f]
    no_offer_fire [OF o f assms(3)] tokens_inv_fire [OF t c k l o f]
  show ?thesis by (simp add: quiet_inv_def)
qed

lemma quiet_inv_run:
  assumes "run as s = Some t" and "quiet_inv n s" and "\<forall>a \<in> set as. \<not> is_tick a"
  shows "quiet_inv n t"
  using assms
proof (induction as arbitrary: s)
  case Nil
  then show ?case by simp
next
  case (Cons a as)
  then obtain u where u: "step a s = Some u" "run as u = Some t"
    by (auto split: option.splits)
  from quiet_inv_step [OF Cons.prems(2) u(1)] Cons.prems(3) have "quiet_inv n u" by simp
  from Cons.IH [OF u(2) this] Cons.prems(3) show ?case by simp
qed

lemma admit_all_quiet:
  "\<forall>a \<in> set (admit_all n). \<not> is_tick a \<and> (\<forall>i e. a \<noteq> Cancel i e) \<and> (\<forall>k j. a \<noteq> Refill k j)"
proof -
  have a: "\<forall>a \<in> set (arrive k). \<not> is_tick a \<and> (\<forall>i e. a \<noteq> Cancel i e) \<and> (\<forall>k j. a \<noteq> Refill k j)"
    for k by (induction k) (auto simp: is_tick_def)
  have b: "\<forall>a \<in> set (serve k). \<not> is_tick a \<and> (\<forall>i e. a \<noteq> Cancel i e) \<and> (\<forall>k j. a \<noteq> Refill k j)"
    for k by (induction k) (auto simp: is_tick_def)
  from a [of "Suc n"] b [of n] show ?thesis
    unfolding admit_all_def by (auto simp: is_tick_def simp del: arrive.simps)
qed

lemma drained_admitted:
  "length (filter admitted (callers (queue_state n rd n 1 MRecv))) = n"
  by (simp add: queue_state_def admitted_def)

lemma quiet_reach:
  assumes "run as (init (NewReservoirLimiter (int n) rd)) = Some s"
    and "\<forall>a \<in> set as. \<not> is_tick a"
  shows "quiet_inv n s"
  using quiet_inv_run [OF assms(1) quiet_inv_init assms(2)] .

lemma quiet_bound:
  assumes "quiet_inv n s"
  shows "length (filter admitted (callers s)) \<le> n"
proof (cases "count_if running (managers s) = 0")
  case True
  with assms show ?thesis by (simp add: quiet_inv_def tokens_inv_def count_if_def)
next
  case False
  with count_if_nonneg [of running "managers s"] have "0 < count_if running (managers s)"
    by simp
  then obtain j where j: "j < length (managers s)" "running (managers s ! j)"
    by (auto simp: count_if_exists in_set_conv_nth)
  with assms have "tokenCount (managers s ! j) + count_if admitted (callers s) = int n"
    and "0 \<le> tokenCount (managers s ! j)"
    by (simp_all add: quiet_inv_def tokens_inv_def level_inv_def level_ok_def)
  then show ?thesis by (simp add: count_if_def)
qed

lemma quiet_no_refill:
  assumes "quiet_inv n s"
  shows "step (Refill k j) s = None"
  using assms by (auto simp: quiet_inv_def no_offer_def step_def)

lemma quiet_dispense:
  assumes "quiet_inv n s" and "step (Dispense j i) s \<noteq> None"
  shows "length (filter admitted (callers s)) < n"
proof -
  from assms(2) have j: "j < length (managers s)" "send_ready (managers s ! j)"
    by (auto simp: step_def split: if_splits)
  then have r: "running (managers s ! j)" by (auto simp: send_ready_def running_def)
  from assms(1) j(1) have "level_ok (int n) (managers s ! j)"
    by (simp add: quiet_inv_def level_inv_def)
  with j(2) have "0 < tokenCount (managers s ! j)"
    by (auto simp: level_ok_def send_ready_def)
  moreover from assms(1) j(1) r
  have "tokenCount (managers s ! j) + count_if admitted (callers s) = int n"
    by (simp add: quiet_inv_def tokens_inv_def)
  ultimately show ?thesis by (simp add: count_if_def)
qed

lemma quiet_blocked:
  assumes "quiet_inv n s" and "i < length (callers s)" and "cpc (callers s ! i) = CSelect"
    and "length (filter admitted (callers s)) = n"
    and "step a s = Some t" and "cpc (callers t ! i) \<noteq> CSelect"
  shows "a = TakeCancel i \<and> ctx (callers s ! i) \<noteq> None"
proof -
  from caller_moves [OF step_fire [OF assms(5)] assms(2)] assms(3,6)
  consider "a = TakeCancel i \<and> ctx (callers s ! i) \<noteq> None" | j where "a = Dispense j i"
    by auto
  then show ?thesis
  proof cases
    case 1
    then show ?thesis .
  next
    case 2
    with assms(5) have "step (Dispense j i) s \<noteq> None" by simp
    from quiet_dispense [OF assms(1) this] assms(4) show ?thesis by simp
  qed
qed

lemma quiet_progress:
  assumes q: "quiet_inv n s" and np: "\<not> panicked s" and i: "i < length (callers s)"
    and sel: "cpc (callers s ! i) = CSelect"
    and lt: "length (filter admitted (callers s)) < n"
  shows "\<exists>j t. (run [Dispense j i] s = Some t \<or> run [Switch j, Dispense j i] s = Some t) \<and>
           cpc (callers t ! i) = CGotToken"
proof -
  from q have c: "count_inv s" and l: "level_inv (int n) s" and tk: "tokens_inv n s"
    by (simp_all add: quiet_inv_def)
  from sel have ins: "inside (callers s ! i)" by (simp add: inside_def)
  from count_if_pos [of i "callers s" inside, OF i ins] c
  have "count_if running (managers s) \<noteq> 0" by (auto simp: count_inv_def)
  with count_if_nonneg [of running "managers s"] have "0 < count_if running (managers s)"
    by simp
  then obtain j where j: "j < length (managers s)" "running (managers s ! j)"
    by (auto simp: count_if_exists in_set_conv_nth)
  from two_participants [OF c j i ins] have two: "2 \<le> numConcurrent (lim s)" .
  from tk j have "tokenCount (managers s ! j) + count_if admitted (callers s) = int n"
    by (simp add: tokens_inv_def)
  with lt have pos: "0 < tokenCount (managers s ! j)"
    by (simp add: count_if_def)
  from l j(1) have ok: "level_ok (int n) (managers s ! j)" and cap: "maxTokens (lim s) = int n"
    by (simp_all add: level_inv_def)
  show ?thesis
  proof (cases "send_ready (managers s ! j)")
    case True
    with np j(1) i sel have "run [Dispense j i] s = Some (dispense j i s)"
      by (simp add: step_def)
    moreover from i have "cpc (callers (dispense j i s) ! i) = CGotToken"
      by (simp add: dispense_def Let_def sets)
    ultimately show ?thesis by blast
  next
    case False
    with j(2) ok pos have pc: "mpc (managers s ! j) = MLoop"
      by (cases "mpc (managers s ! j)") (auto simp: send_ready_def running_def level_ok_def)
    with np j(1) have sw: "step (Switch j) s = Some (manager_switch j s)"
      by (simp add: step_def)
    from pos two cap j(1) have ready: "send_ready (managers (manager_switch j s) ! j)"
      and same: "callers (manager_switch j s) = callers s"
        "length (managers (manager_switch j s)) = length (managers s)"
        "panicked (manager_switch j s) = panicked s"
      by (auto simp: manager_switch_def Let_def sets send_ready_def)
    with np j(1) i sel
    have "step (Dispense j i) (manager_switch j s) = Some (dispense j i (manager_switch j s))"
      by (simp add: step_def)
    with sw have "run [Switch j, Dispense j i] s = Some (dispense j i (manager_switch j s))"
      by simp
    moreover from i same(1)
    have "cpc (callers (dispense j i (manager_switch j s)) ! i) = CGotToken"
      by (simp add: dispense_def Let_def sets)
    ultimately show ?thesis by blast
  qed
qed

lemma drained_cancel:
  "\<exists>t. run [Cancel n e, TakeCancel n, ExitCancel n] (queue_state n rd n 1 MRecv) = Some t \<and>
       cpc (callers t ! n) = CReturned (Some e)"
  by (simp add: queue_state_def step_def sets nth_append)

lemma drained_refill:
  assumes "1 \<le> n" and "0 < rd"
  shows "\<exists>t. run [StartTicker 0, Tick 0, Refill 0 0, Switch 0, Dispense 0 n, ExitOk n]
           (queue_state n rd n 1 MRecv) = Some t \<and> cpc (callers t ! n) = CReturned None"
  using assms
  by (simp add: queue_state_def step_def start_ticker_def refill_def manager_switch_def
      dispense_def recv_ready_def send_ready_def Let_def sets nth_append)

lemma st2_drained_queue: "queue_state 2 1 2 1 MRecv = st2_drained"
  by (simp add: queue_state_def st2_drained_def eval_nat_numeral)

section \<open>The claims\<close>

text \<open>
  C2. In every state that a limiter made by the constructor can reach, a manager is
  running exactly when the participant count is positive, and at most one manager is
  running. For every action from such a state: the entry of \<^verbatim>\<open>Limit\<close> either finds the
  count 0, sets it to 2 and starts a manager at full level, or only adds 1 to it; both
  exits of \<^verbatim>\<open>Limit\<close> subtract 1 and leave the managers alone; nothing but that entry at
  count 0 starts a manager; and a running manager stops running only by its own
  \<^verbatim>\<open>switch\<close> at full level, which finds the count 1 and leaves it 0 in the same action.
\<close>

theorem manager_running_iff_participants:
  assumes "reach (NewReservoirLimiter mt rd) s"
  shows "((0 < numConcurrent (lim s)) = (\<exists>m\<in>set (managers s). running m)) \<and>
         length (filter running (managers s)) \<le> 1 \<and>
         (\<forall>a t. step a s = Some t \<longrightarrow>
            (\<forall>i. a = Enter i \<longrightarrow>
               (if numConcurrent (lim s) = 0
                then numConcurrent (lim t) = 2 \<and>
                     managers t =
                       managers s @ [\<lparr>tokenCount = maxTokens (lim s), mpc = MLoop\<rparr>]
                else numConcurrent (lim t) = numConcurrent (lim s) + 1 \<and>
                     managers t = managers s)) \<and>
            (\<forall>i. a = ExitOk i \<or> a = ExitCancel i \<longrightarrow>
               numConcurrent (lim t) = numConcurrent (lim s) - 1 \<and>
               managers t = managers s) \<and>
            (length (managers t) \<noteq> length (managers s) \<longrightarrow>
               (\<exists>i. a = Enter i \<and> numConcurrent (lim s) = 0)) \<and>
            (\<forall>j < length (managers s).
               running (managers s ! j) \<and> \<not> running (managers t ! j) \<longrightarrow>
               a = Switch j \<and> mpc (managers s ! j) = MLoop \<and>
               tokenCount (managers s ! j) = maxTokens (lim s) \<and>
               numConcurrent (lim s) = 1 \<and> numConcurrent (lim t) = 0))"
proof -
  have "numConcurrent (NewReservoirLimiter mt rd) = 0"
    by (simp add: NewReservoirLimiter_def)
  from count_inv_reach [OF this assms] have inv: "count_inv s" .
  have pos: "(0 < numConcurrent (lim s)) = (0 < count_if running (managers s))"
    using inv count_if_nonneg [of running "managers s"] count_if_nonneg [of inside "callers s"]
    by (auto simp: count_inv_def)
  have one: "(0 < numConcurrent (lim s)) = (\<exists>m\<in>set (managers s). running m)"
    unfolding pos by (rule count_if_exists)
  have two: "length (filter running (managers s)) \<le> 1"
    using inv by (simp add: count_inv_def count_if_def)
  have three: "\<forall>a t. step a s = Some t \<longrightarrow>
            (\<forall>i. a = Enter i \<longrightarrow>
               (if numConcurrent (lim s) = 0
                then numConcurrent (lim t) = 2 \<and>
                     managers t =
                       managers s @ [\<lparr>tokenCount = maxTokens (lim s), mpc = MLoop\<rparr>]
                else numConcurrent (lim t) = numConcurrent (lim s) + 1 \<and>
                     managers t = managers s)) \<and>
            (\<forall>i. a = ExitOk i \<or> a = ExitCancel i \<longrightarrow>
               numConcurrent (lim t) = numConcurrent (lim s) - 1 \<and>
               managers t = managers s) \<and>
            (length (managers t) \<noteq> length (managers s) \<longrightarrow>
               (\<exists>i. a = Enter i \<and> numConcurrent (lim s) = 0)) \<and>
            (\<forall>j < length (managers s).
               running (managers s ! j) \<and> \<not> running (managers t ! j) \<longrightarrow>
               a = Switch j \<and> mpc (managers s ! j) = MLoop \<and>
               tokenCount (managers s ! j) = maxTokens (lim s) \<and>
               numConcurrent (lim s) = 1 \<and> numConcurrent (lim t) = 0)"
  proof (intro allI impI)
    fix a t
    assume "step a s = Some t"
    then have f: "fire a s = Some t" by (rule step_fire)
    have e: "\<forall>i. a = Enter i \<longrightarrow>
               (if numConcurrent (lim s) = 0
                then numConcurrent (lim t) = 2 \<and>
                     managers t =
                       managers s @ [\<lparr>tokenCount = maxTokens (lim s), mpc = MLoop\<rparr>]
                else numConcurrent (lim t) = numConcurrent (lim s) + 1 \<and>
                     managers t = managers s)"
      using f enter_effect by blast
    have x: "\<forall>i. a = ExitOk i \<or> a = ExitCancel i \<longrightarrow>
               numConcurrent (lim t) = numConcurrent (lim s) - 1 \<and>
               managers t = managers s"
      using f exit_effect by blast
    have n: "length (managers t) \<noteq> length (managers s) \<longrightarrow>
               (\<exists>i. a = Enter i \<and> numConcurrent (lim s) = 0)"
      using f started_only_by_enter [of a s t] by blast
    have r: "\<forall>j < length (managers s).
               running (managers s ! j) \<and> \<not> running (managers t ! j) \<longrightarrow>
               a = Switch j \<and> mpc (managers s ! j) = MLoop \<and>
               tokenCount (managers s ! j) = maxTokens (lim s) \<and>
               numConcurrent (lim s) = 1 \<and> numConcurrent (lim t) = 0"
      using f only_exit [of a s t] by blast
    from e x n r show "(\<forall>i. a = Enter i \<longrightarrow>
               (if numConcurrent (lim s) = 0
                then numConcurrent (lim t) = 2 \<and>
                     managers t =
                       managers s @ [\<lparr>tokenCount = maxTokens (lim s), mpc = MLoop\<rparr>]
                else numConcurrent (lim t) = numConcurrent (lim s) + 1 \<and>
                     managers t = managers s)) \<and>
            (\<forall>i. a = ExitOk i \<or> a = ExitCancel i \<longrightarrow>
               numConcurrent (lim t) = numConcurrent (lim s) - 1 \<and>
               managers t = managers s) \<and>
            (length (managers t) \<noteq> length (managers s) \<longrightarrow>
               (\<exists>i. a = Enter i \<and> numConcurrent (lim s) = 0)) \<and>
            (\<forall>j < length (managers s).
               running (managers s ! j) \<and> \<not> running (managers t ! j) \<longrightarrow>
               a = Switch j \<and> mpc (managers s ! j) = MLoop \<and>
               tokenCount (managers s ! j) = maxTokens (lim s) \<and>
               numConcurrent (lim s) = 1 \<and> numConcurrent (lim t) = 0)"
      by (intro conjI)
  qed
  from one two three show ?thesis by (intro conjI)
qed

theorem manager_running_iff_participants_witness:
  "reach (NewReservoirLimiter 1 1) st_idle \<and> step (Switch 0) st_idle = Some st_down \<and>
   running (managers st_idle ! 0) \<and> \<not> running (managers st_down ! 0) \<and>
   numConcurrent (lim st_idle) = 1 \<and> numConcurrent (lim st_down) = 0 \<and>
   length (filter running (managers st_idle)) \<le> 1 \<and>
   (0 < numConcurrent (lim st_idle)) = (\<exists>m\<in>set (managers st_idle). running m)"
proof -
  have run: "running (managers st_idle ! 0) \<and> \<not> running (managers st_down ! 0)"
    by (simp add: st_idle_def st_down_def running_def)
  have len: "0 < length (managers st_idle)"
    by (simp add: st_idle_def)
  from manager_running_iff_participants [OF reach_st_idle] step_st_idle run len
  have "numConcurrent (lim st_idle) = 1 \<and> numConcurrent (lim st_down) = 0" by blast
  with manager_running_iff_participants [OF reach_st_idle] reach_st_idle step_st_idle run
  show ?thesis by blast
qed

text \<open>
  C8, as amended. The constructor checks nothing: for every capacity and every refill
  period, positive or not, it returns a handle with that capacity, that period and a
  participant count of 0. It returns what the specified constructor returns exactly when
  both inputs are positive.
\<close>

theorem NewReservoirLimiter_never_fails:
  "maxTokens (NewReservoirLimiter c d) = c \<and>
   refillDuration (NewReservoirLimiter c d) = d \<and>
   numConcurrent (NewReservoirLimiter c d) = 0 \<and>
   (Construct_spec c d = Some (NewReservoirLimiter c d)) = (0 < c \<and> 0 < d)"
  by (auto simp: NewReservoirLimiter_def Construct_spec_def)

theorem NewReservoirLimiter_never_fails_witness:
  "maxTokens (NewReservoirLimiter 3 5) = 3 \<and>
   refillDuration (NewReservoirLimiter 3 5) = 5 \<and>
   numConcurrent (NewReservoirLimiter 3 5) = 0 \<and>
   Construct_spec 3 5 = Some (NewReservoirLimiter 3 5)"
  using NewReservoirLimiter_never_fails [of 3 5] by simp

text \<open>
  C8, as the specification states it, fails on the code: for capacity 0 the specified
  constructor fails, and the constructor of the code returns a handle.
\<close>

theorem NewReservoirLimiter_zero_capacity_counterexample:
  "Construct_spec 0 1 = None \<and>
   NewReservoirLimiter 0 1 = \<lparr>maxTokens = 0, refillDuration = 1, numConcurrent = 0\<rparr>"
  by (simp add: NewReservoirLimiter_def Construct_spec_def)

text \<open>
  C3. For a limiter constructed with a capacity of at least 1: in every reachable state
  the token count of every manager is between 0 and the capacity; this still holds after
  every action; a manager that an action starts begins at the switch with the full
  capacity; and a refill is delivered only to a manager whose count is below the
  capacity, which it raises by exactly one.
\<close>

theorem level_between_zero_and_capacity:
  assumes "1 \<le> mt" and "reach (NewReservoirLimiter mt rd) s"
  shows "(\<forall>j < length (managers s).
            0 \<le> tokenCount (managers s ! j) \<and> tokenCount (managers s ! j) \<le> mt) \<and>
         (\<forall>a t. step a s = Some t \<longrightarrow>
            (\<forall>j. length (managers s) \<le> j \<and> j < length (managers t) \<longrightarrow>
               managers t ! j = \<lparr>tokenCount = mt, mpc = MLoop\<rparr>) \<and>
            (\<forall>j < length (managers t).
               0 \<le> tokenCount (managers t ! j) \<and> tokenCount (managers t ! j) \<le> mt)) \<and>
         (\<forall>k j t. step (Refill k j) s = Some t \<longrightarrow>
            tokenCount (managers s ! j) < mt \<and>
            tokenCount (managers t ! j) = tokenCount (managers s ! j) + 1)"
proof -
  let ?l = "NewReservoirLimiter mt rd"
  have mt: "maxTokens ?l = mt" by (simp add: NewReservoirLimiter_def)
  have inv: "level_inv mt u" if "reach ?l u" for u
    using level_inv_reach [of ?l u] that assms(1) mt by simp
  have bounds: "\<forall>j < length (managers u).
      0 \<le> tokenCount (managers u ! j) \<and> tokenCount (managers u ! j) \<le> mt"
    if "reach ?l u" for u
    using inv [OF that] by (simp add: level_inv_def level_ok_def)
  have here: "\<forall>j < length (managers s).
      0 \<le> tokenCount (managers s ! j) \<and> tokenCount (managers s ! j) \<le> mt"
    by (rule bounds [OF assms(2)])
  have after: "\<forall>a t. step a s = Some t \<longrightarrow>
            (\<forall>j. length (managers s) \<le> j \<and> j < length (managers t) \<longrightarrow>
               managers t ! j = \<lparr>tokenCount = mt, mpc = MLoop\<rparr>) \<and>
            (\<forall>j < length (managers t).
               0 \<le> tokenCount (managers t ! j) \<and> tokenCount (managers t ! j) \<le> mt)"
  proof (intro allI impI conjI)
    fix a t j
    assume st: "step a s = Some t"
      and j: "length (managers s) \<le> j \<and> j < length (managers t)"
    from inv [OF assms(2)] have "maxTokens (lim s) = mt" by (simp add: level_inv_def)
    with new_manager_full [OF step_fire [OF st]] j
    show "managers t ! j = \<lparr>tokenCount = mt, mpc = MLoop\<rparr>" by simp
  next
    fix a t j
    assume st: "step a s = Some t" and j: "j < length (managers t)"
    from bounds [OF reach_step [OF assms(2) st]] j
    show "0 \<le> tokenCount (managers t ! j)" by simp
  next
    fix a t j
    assume st: "step a s = Some t" and j: "j < length (managers t)"
    from bounds [OF reach_step [OF assms(2) st]] j
    show "tokenCount (managers t ! j) \<le> mt" by simp
  qed
  have full: "\<forall>k j t. step (Refill k j) s = Some t \<longrightarrow>
            tokenCount (managers s ! j) < mt \<and>
            tokenCount (managers t ! j) = tokenCount (managers s ! j) + 1"
  proof (intro allI impI)
    fix k j t
    assume st: "step (Refill k j) s = Some t"
    then have f: "fire (Refill k j) s = Some t" by (rule step_fire)
    then have j: "j < length (managers s)" and r: "recv_ready (managers s ! j)"
      by (auto split: if_splits)
    from inv [OF assms(2)] j have "level_ok mt (managers s ! j)"
      by (simp add: level_inv_def)
    with r assms(1) have "tokenCount (managers s ! j) < mt"
      by (auto simp: level_ok_def recv_ready_def)
    with refill_effect [OF f]
    show "tokenCount (managers s ! j) < mt \<and>
          tokenCount (managers t ! j) = tokenCount (managers s ! j) + 1" by simp
  qed
  from here after full show ?thesis by (intro conjI)
qed

theorem level_between_zero_and_capacity_witness:
  "reach (NewReservoirLimiter 1 1) st_empty \<and>
   step (Refill 0 0) st_empty = Some st_refilled \<and>
   tokenCount (managers st_empty ! 0) = 0 \<and> tokenCount (managers st_refilled ! 0) = 1"
proof -
  have one: "(1::int) \<le> 1" by simp
  have "tokenCount (managers st_empty ! 0) < 1 \<and>
        tokenCount (managers st_refilled ! 0) = tokenCount (managers st_empty ! 0) + 1"
    using level_between_zero_and_capacity [OF one reach_st_empty] step_st_empty by blast
  moreover have "0 \<le> tokenCount (managers st_empty ! 0)"
    using level_between_zero_and_capacity [OF one reach_st_empty]
    by (simp add: st_empty_def)
  ultimately show ?thesis using reach_st_empty step_st_empty by simp
qed

text \<open>
  C1. In every reachable state of a limiter constructed with a capacity \<open>mt\<close> of at least
  1 (and as long as no goroutine has panicked), every manager is in one of three states by
  its level.

  At the \<^verbatim>\<open>switch\<close> nothing but its own switch moves it: at level 0 it parks at the
  receive on the request channel; at level \<open>mt\<close> it reads the participant count, and if
  that count is 1 it sets it to 0 and returns, otherwise it parks at the send on the dispense
  channel; at any other level, which is then strictly between 0 and \<open>mt\<close>, it parks in the
  \<^verbatim>\<open>select\<close>. Each of these switches changes nothing else.

  Parked at the receive, it has level 0, no dispense is enabled, and a refill is enabled
  exactly for a scheduler at its own \<^verbatim>\<open>select\<close>; the refill sets the level to 1, takes
  the manager back to the switch and the scheduler back to its ticker, and changes nothing
  else. Parked at the send, it has level \<open>mt\<close>, no refill is taken, and a dispense is
  enabled exactly for a call parked in the \<^verbatim>\<open>select\<close> of \<^verbatim>\<open>Limit\<close>; the dispense sets
  the level to \<open>mt - 1\<close>, takes the manager back to the switch, hands the token to that
  call and starts one new refill scheduler. Parked in the \<^verbatim>\<open>select\<close>, both are enabled
  on the same conditions: the refill adds 1 to the level, the dispense subtracts 1 and
  starts no scheduler. In each parked state only the transfers named move the manager.
\<close>

theorem manager_three_state_machine:
  assumes "1 \<le> mt" and "reach (NewReservoirLimiter mt rd) s" and "\<not> panicked s"
    and "j < length (managers s)" and "m = managers s ! j"
  shows
    "(mpc m = MLoop \<longrightarrow>
        (\<forall>a t. step a s = Some t \<and> managers t ! j \<noteq> m \<longrightarrow> a = Switch j) \<and>
        (tokenCount m = 0 \<longrightarrow>
           step (Switch j) s = Some (s\<lparr>managers := (managers s)[j := m\<lparr>mpc := MRecv\<rparr>]\<rparr>)) \<and>
        (tokenCount m = mt \<and> numConcurrent (lim s) = 1 \<longrightarrow>
           step (Switch j) s =
             Some (s\<lparr>lim := (lim s)\<lparr>numConcurrent := 0\<rparr>,
                     managers := (managers s)[j := m\<lparr>mpc := MReturned\<rparr>]\<rparr>)) \<and>
        (tokenCount m = mt \<and> numConcurrent (lim s) \<noteq> 1 \<longrightarrow>
           step (Switch j) s = Some (s\<lparr>managers := (managers s)[j := m\<lparr>mpc := MSend\<rparr>]\<rparr>)) \<and>
        (tokenCount m \<noteq> 0 \<and> tokenCount m \<noteq> mt \<longrightarrow>
           0 < tokenCount m \<and> tokenCount m < mt \<and>
           step (Switch j) s =
             Some (s\<lparr>managers := (managers s)[j := m\<lparr>mpc := MSelect\<rparr>]\<rparr>))) \<and>
     (mpc m = MRecv \<longrightarrow>
        tokenCount m = 0 \<and>
        (\<forall>a t. step a s = Some t \<and> managers t ! j \<noteq> m \<longrightarrow> (\<exists>k. a = Refill k j)) \<and>
        (\<forall>i. step (Dispense j i) s = None) \<and>
        (\<forall>k. step (Refill k j) s =
           (if k < length (refillers s) \<and> refillers s ! k = RSelect
            then Some (s\<lparr>managers := (managers s)[j := \<lparr>tokenCount = 1, mpc = MLoop\<rparr>],
                         refillers := (refillers s)[k := RWait]\<rparr>)
            else None))) \<and>
     (mpc m = MSend \<longrightarrow>
        tokenCount m = mt \<and>
        (\<forall>a t. step a s = Some t \<and> managers t ! j \<noteq> m \<longrightarrow> (\<exists>i. a = Dispense j i)) \<and>
        (\<forall>k. step (Refill k j) s = None) \<and>
        (\<forall>i. step (Dispense j i) s =
           (if i < length (callers s) \<and> cpc (callers s ! i) = CSelect
            then Some (s\<lparr>managers := (managers s)[j := \<lparr>tokenCount = mt - 1, mpc = MLoop\<rparr>],
                         callers := (callers s)[i := (callers s ! i)\<lparr>cpc := CGotToken\<rparr>],
                         refillers := refillers s @ [RStart]\<rparr>)
            else None))) \<and>
     (mpc m = MSelect \<longrightarrow>
        0 < tokenCount m \<and> tokenCount m < mt \<and>
        (\<forall>a t. step a s = Some t \<and> managers t ! j \<noteq> m \<longrightarrow>
           (\<exists>k. a = Refill k j) \<or> (\<exists>i. a = Dispense j i)) \<and>
        (\<forall>k. step (Refill k j) s =
           (if k < length (refillers s) \<and> refillers s ! k = RSelect
            then Some (s\<lparr>managers := (managers s)
                           [j := \<lparr>tokenCount = tokenCount m + 1, mpc = MLoop\<rparr>],
                         refillers := (refillers s)[k := RWait]\<rparr>)
            else None)) \<and>
        (\<forall>i. step (Dispense j i) s =
           (if i < length (callers s) \<and> cpc (callers s ! i) = CSelect
            then Some (s\<lparr>managers := (managers s)
                           [j := \<lparr>tokenCount = tokenCount m - 1, mpc = MLoop\<rparr>],
                         callers := (callers s)[i := (callers s ! i)\<lparr>cpc := CGotToken\<rparr>]\<rparr>)
            else None)))"
    (is "(_ \<longrightarrow> ?L1 \<and> ?L2 \<and> ?L3 \<and> ?L4 \<and> ?L5) \<and> (_ \<longrightarrow> ?R1 \<and> ?R2 \<and> ?R3 \<and> ?R4) \<and>
         (_ \<longrightarrow> ?S1 \<and> ?S2 \<and> ?S3 \<and> ?S4) \<and> (_ \<longrightarrow> ?P1 \<and> ?P2 \<and> ?P3 \<and> ?P4 \<and> ?P5)")
proof -
  have ok: "level_ok mt m" and cap: "maxTokens (lim s) = mt"
    using manager_level [of mt rd s j] assms by simp_all
  have who: "case mpc m of
           MLoop \<Rightarrow> a = Switch j
         | MRecv \<Rightarrow> \<exists>k. a = Refill k j
         | MSend \<Rightarrow> \<exists>i. a = Dispense j i
         | MSelect \<Rightarrow> (\<exists>k. a = Refill k j) \<or> (\<exists>i. a = Dispense j i)
         | MReturned \<Rightarrow> False"
    if "step a s = Some t \<and> managers t ! j \<noteq> m" for a t
    using manager_moves [OF step_fire assms(4), of a t] that assms(5) by simp
  have re: "step (Refill k j) s =
           (if k < length (refillers s) \<and> refillers s ! k = RSelect
            then Some (s\<lparr>managers := (managers s)
                           [j := \<lparr>tokenCount = tokenCount m + 1, mpc = MLoop\<rparr>],
                         refillers := (refillers s)[k := RWait]\<rparr>)
            else None)" if "recv_ready m" for k
    using refill_step [OF assms(3,4), of k] that assms(5) by simp
  have de: "step (Dispense j i) s =
     (if i < length (callers s) \<and> cpc (callers s ! i) = CSelect
      then Some (s\<lparr>managers := (managers s)
                     [j := \<lparr>tokenCount = tokenCount m - 1, mpc = MLoop\<rparr>],
                   callers := (callers s)[i := (callers s ! i)\<lparr>cpc := CGotToken\<rparr>],
                   refillers :=
                     (if mpc m = MSend then refillers s @ [RStart] else refillers s)\<rparr>)
      else None)" if "send_ready m" for i
    using dispense_step [OF assms(3,4), of i] that assms(5) by simp
  have loop: "?L1 \<and> ?L2 \<and> ?L3 \<and> ?L4 \<and> ?L5" if pc: "mpc m = MLoop"
  proof (intro conjI)
    have sw: "step (Switch j) s = Some (manager_switch j s)"
      using switch_enabled [OF assms(3,4)] pc assms(5) by simp
    show ?L1 using who pc by fastforce
    show ?L2 using sw assms(5) by (simp add: manager_switch_def sets)
    show ?L3 using sw assms(1,5) cap by (auto simp: manager_switch_def sets)
    show ?L4 using sw assms(1,5) cap by (auto simp: manager_switch_def sets)
    show ?L5 using sw assms(5) cap ok by (auto simp: manager_switch_def level_ok_def sets)
  qed
  have recv: "?R1 \<and> ?R2 \<and> ?R3 \<and> ?R4" if pc: "mpc m = MRecv"
  proof (intro conjI)
    show z: ?R1 using ok pc by (simp add: level_ok_def)
    show ?R2 using who pc by fastforce
    show ?R3 using pc assms(5) by (simp add: step_def send_ready_def)
    show ?R4 using re pc z by (simp add: recv_ready_def)
  qed
  have send: "?S1 \<and> ?S2 \<and> ?S3 \<and> ?S4" if pc: "mpc m = MSend"
  proof (intro conjI)
    show f: ?S1 using ok pc by (simp add: level_ok_def)
    show ?S2 using who pc by fastforce
    show ?S3 using pc assms(5) by (simp add: step_def recv_ready_def)
    show ?S4 using de pc f by (simp add: send_ready_def)
  qed
  have sel: "?P1 \<and> ?P2 \<and> ?P3 \<and> ?P4 \<and> ?P5" if pc: "mpc m = MSelect"
  proof (intro conjI)
    show ?P1 using ok pc by (simp add: level_ok_def)
    show ?P2 using ok pc by (simp add: level_ok_def)
    show ?P3 using who pc by fastforce
    show ?P4 using re pc by (simp add: recv_ready_def)
    show ?P5 using de pc by (simp add: send_ready_def)
  qed
  from loop recv send sel show ?thesis by blast
qed

theorem manager_three_state_machine_witness:
  "reach (NewReservoirLimiter 1 1) st_idle \<and> step (Switch 0) st_idle = Some st_down \<and>
   reach (NewReservoirLimiter 1 1) st_empty \<and> step (Dispense 0 0) st_empty = None \<and>
   step (Refill 0 0) st_empty = Some st_refilled \<and>
   reach (NewReservoirLimiter 2 1) st2_full \<and> step (Switch 0) st2_full = Some st2_send \<and>
   reach (NewReservoirLimiter 2 1) st2_send \<and> step (Refill 0 0) st2_send = None \<and>
   step (Dispense 0 0) st2_send = Some st2_one \<and>
   reach (NewReservoirLimiter 2 1) st2_partial \<and>
   step (Switch 0) st2_partial = Some st2_race \<and>
   reach (NewReservoirLimiter 2 1) st2_race \<and>
   step (Refill 0 0) st2_race = Some st2_up \<and>
   step (Dispense 0 1) st2_race = Some st2_down"
proof -
  have one: "(1::int) \<le> 1" and two: "(1::int) \<le> 2" by simp_all
  have a: "step (Switch 0) st_idle = Some st_down"
    using manager_three_state_machine [OF one reach_st_idle, of 0 "managers st_idle ! 0"]
    by (simp add: st_idle_def st_down_def)
  have b: "step (Dispense 0 0) st_empty = None \<and>
           step (Refill 0 0) st_empty = Some st_refilled"
    using manager_three_state_machine [OF one reach_st_empty, of 0 "managers st_empty ! 0"]
    by (simp add: st_empty_def st_refilled_def)
  have c: "step (Switch 0) st2_full = Some st2_send"
    using manager_three_state_machine [OF two reach_st2_full, of 0 "managers st2_full ! 0"]
    by (simp add: st2_full_def st2_send_def)
  have d: "step (Refill 0 0) st2_send = None \<and>
           step (Dispense 0 0) st2_send = Some st2_one"
    using manager_three_state_machine [OF two reach_st2_send, of 0 "managers st2_send ! 0"]
    by (simp add: st2_send_def st2_one_def)
  have e: "step (Switch 0) st2_partial = Some st2_race"
    using manager_three_state_machine [OF two reach_st2_partial, of 0
        "managers st2_partial ! 0"]
    by (simp add: st2_partial_def st2_race_def)
  have f: "step (Refill 0 0) st2_race = Some st2_up \<and>
           step (Dispense 0 1) st2_race = Some st2_down"
    using manager_three_state_machine [OF two reach_st2_race, of 0 "managers st2_race ! 0"]
    by (simp add: st2_race_def st2_up_def st2_down_def)
  from a b c d e f reach_st_idle reach_st_empty reach_st2_full reach_st2_send
    reach_st2_partial reach_st2_race
  show ?thesis by simp
qed

text \<open>
  C5. A refill scheduler starts by creating its ticker from \<^verbatim>\<open>l.refillDuration\<close>, which
  panics when that duration is not positive. Waiting for its ticker, it is moved only by
  a tick, which takes it to its \<^verbatim>\<open>select\<close> and changes nothing else. There it never
  blocks: a delivery is enabled exactly to a manager parked as a receiver on the request
  channel, adds exactly 1 to that manager's level, takes that manager back to its switch
  and the scheduler back to waiting for the next tick, and changes nothing else; the
  \<^verbatim>\<open>default\<close> branch is enabled exactly when no manager is parked as a receiver, and
  stops the scheduler. Once stopped, no action of this scheduler is enabled (its ticker
  fires no more) and it is stopped in every later state.
\<close>

theorem refill_scheduler_ticks_until_first_miss:
  assumes "\<not> panicked s" and "k < length (refillers s)"
  shows
    "(refillers s ! k = RStart \<longrightarrow>
        step (StartTicker k) s =
          Some (if refillDuration (lim s) \<le> 0 then s\<lparr>panicked := True\<rparr>
                else s\<lparr>refillers := (refillers s)[k := RWait]\<rparr>)) \<and>
     (refillers s ! k = RWait \<longrightarrow>
        step (Tick k) s = Some (s\<lparr>refillers := (refillers s)[k := RSelect]\<rparr>) \<and>
        (\<forall>a t. step a s = Some t \<and> refillers t ! k \<noteq> RWait \<longrightarrow> a = Tick k)) \<and>
     (refillers s ! k = RSelect \<longrightarrow>
        (\<forall>j. step (Refill k j) s =
           (if j < length (managers s) \<and> recv_ready (managers s ! j)
            then Some (s\<lparr>managers := (managers s)
                           [j := \<lparr>tokenCount = tokenCount (managers s ! j) + 1, mpc = MLoop\<rparr>],
                         refillers := (refillers s)[k := RWait]\<rparr>)
            else None)) \<and>
        step (GiveUp k) s =
           (if \<exists>j < length (managers s). recv_ready (managers s ! j) then None
            else Some (s\<lparr>refillers := (refillers s)[k := RStopped]\<rparr>)) \<and>
        ((\<exists>j. step (Refill k j) s \<noteq> None) \<or> step (GiveUp k) s \<noteq> None) \<and>
        (\<forall>a t. step a s = Some t \<and> refillers t ! k \<noteq> RSelect \<longrightarrow>
           (\<exists>j. a = Refill k j) \<or> a = GiveUp k)) \<and>
     (refillers s ! k = RStopped \<longrightarrow>
        (\<forall>a. step a s \<noteq> None \<longrightarrow>
           a \<noteq> Tick k \<and> a \<noteq> GiveUp k \<and> a \<noteq> StartTicker k \<and> (\<forall>j. a \<noteq> Refill k j)) \<and>
        (\<forall>as t. run as s = Some t \<longrightarrow>
           k < length (refillers t) \<and> refillers t ! k = RStopped))"
    (is "(_ \<longrightarrow> ?A) \<and> (_ \<longrightarrow> ?W1 \<and> ?W2) \<and> (_ \<longrightarrow> ?S1 \<and> ?S2 \<and> ?S3 \<and> ?S4) \<and>
         (_ \<longrightarrow> ?Z1 \<and> ?Z2)")
proof -
  have start: ?A if "refillers s ! k = RStart"
    using assms that by (simp add: step_def start_ticker_def sets)
  have wait: "?W1 \<and> ?W2" if w: "refillers s ! k = RWait"
  proof (intro conjI)
    show ?W1 using assms w by (simp add: step_def sets)
    show ?W2
    proof (intro allI impI)
      fix a t
      assume "step a s = Some t \<and> refillers t ! k \<noteq> RWait"
      with refiller_moves [of a s t k] assms(2) w show "a = Tick k"
        by (auto dest: step_fire)
    qed
  qed
  have sel: "?S1 \<and> ?S2 \<and> ?S3 \<and> ?S4" if r: "refillers s ! k = RSelect"
  proof (intro conjI)
    show ?S1 using assms r by (simp add: step_def refill_def sets)
    show ?S2 using assms r by (auto simp: step_def list_ex_length sets)
    show ?S3 using assms r by (auto simp: step_def list_ex_length)
    show ?S4
    proof (intro allI impI)
      fix a t
      assume "step a s = Some t \<and> refillers t ! k \<noteq> RSelect"
      with refiller_moves [of a s t k] assms(2) r
      show "(\<exists>j. a = Refill k j) \<or> a = GiveUp k"
        by (auto dest: step_fire)
    qed
  qed
  have stop: "?Z1 \<and> ?Z2" if st: "refillers s ! k = RStopped"
  proof (intro conjI)
    show ?Z1 using st by (auto simp: step_def)
    show ?Z2 using stopped_forever [OF _ assms(2) st] by blast
  qed
  from start wait sel stop show ?thesis by blast
qed

theorem refill_scheduler_ticks_until_first_miss_witness:
  "step (Refill 0 0) st_empty = Some st_refilled \<and> refillers st_refilled ! 0 = RWait \<and>
   step (Tick 0) st_refilled = Some st_ticked \<and> refillers st_ticked ! 0 = RSelect \<and>
   step (GiveUp 0) st_ticked = Some st_stopped \<and> refillers st_stopped ! 0 = RStopped \<and>
   step (Tick 0) st_stopped = None \<and>
   step (StartTicker 0) st2_one = Some (st2_one\<lparr>refillers := [RWait]\<rparr>)"
proof -
  have a: "step (Refill 0 0) st_empty = Some st_refilled \<and> step (GiveUp 0) st_empty = None"
    using refill_scheduler_ticks_until_first_miss [of st_empty 0]
    by (simp add: st_empty_def st_refilled_def recv_ready_def)
  have b: "step (Tick 0) st_refilled = Some st_ticked"
    using refill_scheduler_ticks_until_first_miss [of st_refilled 0]
    by (simp add: st_refilled_def st_ticked_def)
  have c: "step (GiveUp 0) st_ticked = Some st_stopped \<and> step (Refill 0 0) st_ticked = None"
    using refill_scheduler_ticks_until_first_miss [of st_ticked 0]
    by (simp add: st_ticked_def st_stopped_def recv_ready_def)
  have z: "\<not> panicked st_stopped" "0 < length (refillers st_stopped)"
    "refillers st_stopped ! 0 = RStopped"
    by (simp_all add: st_stopped_def)
  from refill_scheduler_ticks_until_first_miss [OF z(1,2)] z(3)
  have d: "step (Tick 0) st_stopped = None" by blast
  have e: "step (StartTicker 0) st2_one = Some (st2_one\<lparr>refillers := [RWait]\<rparr>)"
    using refill_scheduler_ticks_until_first_miss [of st2_one 0]
    by (simp add: st2_one_def)
  have f: "refillers st_refilled ! 0 = RWait" "refillers st_ticked ! 0 = RSelect"
    by (simp_all add: st_refilled_def st_ticked_def)
  from a b c d e f z(3) show ?thesis by simp
qed



text \<open>
  C10. In every reachable state, a call of \<^verbatim>\<open>Limit\<close> that has not yet passed its entry
  can do nothing but enter, whatever the state of its context: neither branch of the
  \<^verbatim>\<open>select\<close> and neither exit is enabled. The entry sets the participant count to 2 and
  starts a manager at full level when the count was 0, and adds 1 to it otherwise. When
  the context was already cancelled with error \<open>e\<close>, the call can then take the
  \<^verbatim>\<open>Done\<close> branch and return \<open>e\<close>: after these three actions the count is back at its
  old value when it was not 0, and is 1 (the new manager's) when it was 0, and nothing
  else but the call's own place has changed. In general the participant count is the
  number of running managers plus the number of calls between their entry and their
  exit: a call at its entry does not count, each exit subtracts 1, and the call that
  has left does not count any more.
\<close>

theorem limit_bookkeeping_before_cancellation:
  assumes "reach (NewReservoirLimiter mt rd) s" and "\<not> panicked s"
    and "i < length (callers s)" and "c = callers s ! i" and "cpc c = CEntry"
  shows
    "step (TakeCancel i) s = None \<and> step (ExitCancel i) s = None \<and>
     step (ExitOk i) s = None \<and> (\<forall>j. step (Dispense j i) s = None) \<and>
     step (Enter i) s =
       Some (if numConcurrent (lim s) = 0
             then s\<lparr>lim := (lim s)\<lparr>numConcurrent := 2\<rparr>,
                    managers := managers s @ [\<lparr>tokenCount = mt, mpc = MLoop\<rparr>],
                    callers := (callers s)[i := c\<lparr>cpc := CSelect\<rparr>]\<rparr>
             else s\<lparr>lim := (lim s)\<lparr>numConcurrent := numConcurrent (lim s) + 1\<rparr>,
                    callers := (callers s)[i := c\<lparr>cpc := CSelect\<rparr>]\<rparr>) \<and>
     (\<forall>e. ctx c = Some e \<longrightarrow>
        run [Enter i, TakeCancel i, ExitCancel i] s =
          Some (if numConcurrent (lim s) = 0
                then s\<lparr>lim := (lim s)\<lparr>numConcurrent := 1\<rparr>,
                       managers := managers s @ [\<lparr>tokenCount = mt, mpc = MLoop\<rparr>],
                       callers := (callers s)[i := c\<lparr>cpc := CReturned (Some e)\<rparr>]\<rparr>
                else s\<lparr>callers := (callers s)[i := c\<lparr>cpc := CReturned (Some e)\<rparr>]\<rparr>)) \<and>
     numConcurrent (lim s) =
       int (length (filter running (managers s))) + int (length (filter inside (callers s))) \<and>
     \<not> inside c \<and>
     (\<forall>a t i'. step a s = Some t \<and> (a = ExitOk i' \<or> a = ExitCancel i') \<longrightarrow>
        numConcurrent (lim t) = numConcurrent (lim s) - 1 \<and> \<not> inside (callers t ! i') \<and>
        numConcurrent (lim t) =
          int (length (filter running (managers t))) +
          int (length (filter inside (callers t))))"
    (is "?A \<and> ?B \<and> ?C \<and> ?D \<and> ?E \<and> ?F \<and> ?G \<and> ?H \<and> ?I")
proof (intro conjI)
  have init0: "numConcurrent (NewReservoirLimiter mt rd) = 0"
    by (simp add: NewReservoirLimiter_def)
  have cap: "maxTokens (lim s) = mt"
    using capacity_reach [OF assms(1)] by (simp add: NewReservoirLimiter_def)
  show ?A using assms by (simp add: step_def)
  show ?B using assms by (simp add: step_def)
  show ?C using assms by (simp add: step_def)
  show ?D using assms by (simp add: step_def)
  show ?E using assms cap by (simp add: step_def limit_enter_def sets)
  show ?F
  proof (intro allI impI)
    fix e
    assume "ctx c = Some e"
    with assms cap show "run [Enter i, TakeCancel i, ExitCancel i] s =
          Some (if numConcurrent (lim s) = 0
                then s\<lparr>lim := (lim s)\<lparr>numConcurrent := 1\<rparr>,
                       managers := managers s @ [\<lparr>tokenCount = mt, mpc = MLoop\<rparr>],
                       callers := (callers s)[i := c\<lparr>cpc := CReturned (Some e)\<rparr>]\<rparr>
                else s\<lparr>callers := (callers s)[i := c\<lparr>cpc := CReturned (Some e)\<rparr>]\<rparr>)"
      by (simp add: step_def limit_enter_def sets)
  qed
  show ?G by (rule count_as_filters [OF count_inv_reach [OF init0 assms(1)]])
  show ?H using assms(5) by (simp add: inside_def)
  show ?I
  proof (intro allI impI)
    fix a t i'
    assume h: "step a s = Some t \<and> (a = ExitOk i' \<or> a = ExitCancel i')"
    then have st: "step a s = Some t" and ex: "a = ExitOk i' \<or> a = ExitCancel i'"
      by simp_all
    from exit_effect [OF step_fire [OF st] ex]
    have one: "numConcurrent (lim t) = numConcurrent (lim s) - 1" by simp
    from st ex have two: "\<not> inside (callers t ! i')"
      by (auto simp: step_def inside_def sets split: if_splits)
    from count_as_filters [OF count_inv_reach [OF init0 reach_step [OF assms(1) st]]]
    have three: "numConcurrent (lim t) =
          int (length (filter running (managers t))) +
          int (length (filter inside (callers t)))" .
    from one two three show "numConcurrent (lim t) = numConcurrent (lim s) - 1 \<and>
        \<not> inside (callers t ! i') \<and>
        numConcurrent (lim t) =
          int (length (filter running (managers t))) +
          int (length (filter inside (callers t)))" by simp
  qed
qed


theorem limit_bookkeeping_before_cancellation_witness:
  "reach (NewReservoirLimiter 1 1) st_called \<and> step (TakeCancel 0) st_called = None \<and>
   numConcurrent (lim st_called) = 0 \<and>
   run [Enter 0, TakeCancel 0, ExitCancel 0] st_called = Some st_idle \<and>
   numConcurrent (lim st_idle) = 1 \<and> length (filter running (managers st_idle)) = 1 \<and>
   reach (NewReservoirLimiter 2 1) st2_late \<and> step (TakeCancel 1) st2_late = None \<and>
   numConcurrent (lim st2_late) = 2 \<and>
   run [Enter 1, TakeCancel 1, ExitCancel 1] st2_late = Some st2_late_gone \<and>
   numConcurrent (lim st2_late_gone) = 2"
proof -
  have p: "\<not> panicked st_called" "0 < length (callers st_called)"
    "cpc (callers st_called ! 0) = CEntry" "ctx (callers st_called ! 0) = Some ''gone''"
    by (simp_all add: st_called_def)
  have q: "\<not> panicked st2_late" "1 < length (callers st2_late)"
    "cpc (callers st2_late ! 1) = CEntry" "ctx (callers st2_late ! 1) = Some ''gone''"
    by (simp_all add: st2_late_def)
  have r: "(if numConcurrent (lim st_called) = 0
            then st_called\<lparr>lim := (lim st_called)\<lparr>numConcurrent := 1\<rparr>,
                   managers := managers st_called @ [\<lparr>tokenCount = 1, mpc = MLoop\<rparr>],
                   callers := (callers st_called)
                     [0 := (callers st_called ! 0)\<lparr>cpc := CReturned (Some ''gone'')\<rparr>]\<rparr>
            else st_called\<lparr>callers := (callers st_called)
                     [0 := (callers st_called ! 0)\<lparr>cpc := CReturned (Some ''gone'')\<rparr>]\<rparr>) =
           st_idle"
    by (simp add: st_called_def st_idle_def)
  have r': "(if numConcurrent (lim st2_late) = 0
            then st2_late\<lparr>lim := (lim st2_late)\<lparr>numConcurrent := 1\<rparr>,
                   managers := managers st2_late @ [\<lparr>tokenCount = 2, mpc = MLoop\<rparr>],
                   callers := (callers st2_late)
                     [1 := (callers st2_late ! 1)\<lparr>cpc := CReturned (Some ''gone'')\<rparr>]\<rparr>
            else st2_late\<lparr>callers := (callers st2_late)
                     [1 := (callers st2_late ! 1)\<lparr>cpc := CReturned (Some ''gone'')\<rparr>]\<rparr>) =
           st2_late_gone"
    by (simp add: st2_late_def st2_late_gone_def)
  note one = limit_bookkeeping_before_cancellation [OF reach_st_called p(1,2) refl p(3)]
  note two = limit_bookkeeping_before_cancellation [OF reach_st2_late q(1,2) refl q(3)]
  from one have a1: "step (TakeCancel 0) st_called = None" by blast
  from one p(4) have "run [Enter 0, TakeCancel 0, ExitCancel 0] st_called =
      Some (if numConcurrent (lim st_called) = 0
            then st_called\<lparr>lim := (lim st_called)\<lparr>numConcurrent := 1\<rparr>,
                   managers := managers st_called @ [\<lparr>tokenCount = 1, mpc = MLoop\<rparr>],
                   callers := (callers st_called)
                     [0 := (callers st_called ! 0)\<lparr>cpc := CReturned (Some ''gone'')\<rparr>]\<rparr>
            else st_called\<lparr>callers := (callers st_called)
                     [0 := (callers st_called ! 0)\<lparr>cpc := CReturned (Some ''gone'')\<rparr>]\<rparr>)"
    by blast
  then have a2: "run [Enter 0, TakeCancel 0, ExitCancel 0] st_called = Some st_idle"
    by (simp only: r)
  from two have b1: "step (TakeCancel 1) st2_late = None" by blast
  from two q(4) have "run [Enter 1, TakeCancel 1, ExitCancel 1] st2_late =
      Some (if numConcurrent (lim st2_late) = 0
            then st2_late\<lparr>lim := (lim st2_late)\<lparr>numConcurrent := 1\<rparr>,
                   managers := managers st2_late @ [\<lparr>tokenCount = 2, mpc = MLoop\<rparr>],
                   callers := (callers st2_late)
                     [1 := (callers st2_late ! 1)\<lparr>cpc := CReturned (Some ''gone'')\<rparr>]\<rparr>
            else st2_late\<lparr>callers := (callers st2_late)
                     [1 := (callers st2_late ! 1)\<lparr>cpc := CReturned (Some ''gone'')\<rparr>]\<rparr>)"
    by blast
  then have b2: "run [Enter 1, TakeCancel 1, ExitCancel 1] st2_late = Some st2_late_gone"
    by (simp only: r')
  have c: "numConcurrent (lim st_called) = 0" "numConcurrent (lim st_idle) = 1"
    "length (filter running (managers st_idle)) = 1"
    "numConcurrent (lim st2_late) = 2" "numConcurrent (lim st2_late_gone) = 2"
    by (simp_all add: st_called_def st_idle_def st2_late_def st2_late_gone_def running_def)
  from a1 a2 b1 b2 c reach_st_called reach_st2_late show ?thesis by (intro conjI)
qed

text \<open>
  C9. For a limiter constructed with capacity 0, in every reachable state: nothing has
  panicked and no refill scheduler exists; no dispense and no refill is enabled; every
  manager has level 0 and stands at its switch or at the receive of the request channel
  (it never reaches the send and never returns), and its switch takes it to that
  receive, whatever the participant count; no call has received a token or returned
  \<^verbatim>\<open>nil\<close>, and a call that has returned has returned the error of its context; a call
  parked in its \<^verbatim>\<open>select\<close> is moved only by the \<^verbatim>\<open>Done\<close> branch, which is enabled
  exactly when its context has been cancelled.
\<close>

theorem zero_capacity_admits_nobody:
  assumes "reach (NewReservoirLimiter 0 rd) s"
  shows
    "\<not> panicked s \<and> refillers s = [] \<and>
     (\<forall>j i. step (Dispense j i) s = None) \<and>
     (\<forall>k j. step (Refill k j) s = None) \<and>
     (\<forall>j < length (managers s).
        tokenCount (managers s ! j) = 0 \<and>
        (mpc (managers s ! j) = MLoop \<or> mpc (managers s ! j) = MRecv) \<and>
        (mpc (managers s ! j) = MLoop \<longrightarrow>
           step (Switch j) s =
             Some (s\<lparr>managers := (managers s)[j := (managers s ! j)\<lparr>mpc := MRecv\<rparr>]\<rparr>))) \<and>
     (\<forall>i < length (callers s).
        cpc (callers s ! i) \<noteq> CGotToken \<and> cpc (callers s ! i) \<noteq> CReturned None \<and>
        (\<forall>r. cpc (callers s ! i) = CReturned r \<longrightarrow> r \<noteq> None \<and> r = ctx (callers s ! i)) \<and>
        (cpc (callers s ! i) = CSelect \<longrightarrow>
           step (TakeCancel i) s =
             (if ctx (callers s ! i) = None then None
              else Some (s\<lparr>callers := (callers s)
                             [i := (callers s ! i)\<lparr>cpc := CCancelled\<rparr>]\<rparr>)) \<and>
           (\<forall>a t. step a s = Some t \<and> cpc (callers t ! i) \<noteq> CSelect \<longrightarrow>
              a = TakeCancel i)))"
    (is "?A \<and> ?B \<and> ?C \<and> ?D \<and> ?E \<and> ?F")
proof (intro conjI)
  have "maxTokens (NewReservoirLimiter 0 rd) = 0" by (simp add: NewReservoirLimiter_def)
  from zero_inv_reach [OF this assms] have z: "zero_inv s" .
  from callers_inv_reach [OF assms] have ci: "callers_inv s" .
  show a: ?A using z by (simp add: zero_inv_def)
  show ?B using z by (simp add: zero_inv_def)
  show c: ?C using z by (auto simp: zero_inv_def step_def send_ready_def)
  show ?D using z by (simp add: zero_inv_def step_def)
  show ?E
  proof (intro allI impI conjI)
    fix j assume j: "j < length (managers s)"
    with z show "tokenCount (managers s ! j) = 0" by (simp add: zero_inv_def)
    from j z show "mpc (managers s ! j) = MLoop \<or> mpc (managers s ! j) = MRecv"
      by (simp add: zero_inv_def)
    assume "mpc (managers s ! j) = MLoop"
    with j z show "step (Switch j) s =
        Some (s\<lparr>managers := (managers s)[j := (managers s ! j)\<lparr>mpc := MRecv\<rparr>]\<rparr>)"
      by (simp add: zero_inv_def step_def manager_switch_def sets)
  qed
  show ?F
  proof (intro allI impI conjI)
    fix i assume i: "i < length (callers s)"
    with z show "cpc (callers s ! i) \<noteq> CGotToken" by (simp add: zero_inv_def)
    from i z show n: "cpc (callers s ! i) \<noteq> CReturned None" by (simp add: zero_inv_def)
    {
      fix r assume r: "cpc (callers s ! i) = CReturned r"
      with n show "r \<noteq> None" by auto
      with r ci i show "r = ctx (callers s ! i)"
        by (auto simp: callers_inv_def caller_ok_def)
    }
    {
      assume sel: "cpc (callers s ! i) = CSelect"
      with a i show "step (TakeCancel i) s =
             (if ctx (callers s ! i) = None then None
              else Some (s\<lparr>callers := (callers s)
                             [i := (callers s ! i)\<lparr>cpc := CCancelled\<rparr>]\<rparr>))"
        by (simp add: step_def sets)
      fix a t
      assume h: "step a s = Some t \<and> cpc (callers t ! i) \<noteq> CSelect"
      with caller_moves [of a s t i] i sel
      have "a = TakeCancel i \<or> (\<exists>j. a = Dispense j i)" by (auto dest: step_fire)
      with h c show "a = TakeCancel i" by auto
    }
  qed
qed

theorem zero_capacity_admits_nobody_witness:
  "reach (NewReservoirLimiter 0 1) st0_full \<and> step (Switch 0) st0_full = Some st0_wait \<and>
   reach (NewReservoirLimiter 0 1) st0_wait \<and> step (Dispense 0 0) st0_wait = None \<and>
   step (TakeCancel 0) st0_wait = None \<and>
   reach (NewReservoirLimiter 0 1) st0_fired \<and>
   step (TakeCancel 0) st0_fired = Some st0_cancelled \<and>
   reach (NewReservoirLimiter 0 1) st0_idle \<and> numConcurrent (lim st0_idle) = 1 \<and>
   step (Switch 0) st0_idle = Some st0_stuck"
proof -
  have a: "step (Switch 0) st0_full = Some st0_wait"
    using zero_capacity_admits_nobody [OF reach_st0_full]
    by (simp add: st0_full_def st0_wait_def)
  have b: "step (Dispense 0 0) st0_wait = None"
    using zero_capacity_admits_nobody [OF reach_st0_wait] by blast
  have c: "step (TakeCancel 0) st0_wait = None"
    using zero_capacity_admits_nobody [OF reach_st0_wait]
    by (simp add: st0_wait_def)
  have d: "step (TakeCancel 0) st0_fired = Some st0_cancelled"
    using zero_capacity_admits_nobody [OF reach_st0_fired]
    by (simp add: st0_fired_def st0_cancelled_def)
  have e: "step (Switch 0) st0_idle = Some st0_stuck"
    using zero_capacity_admits_nobody [OF reach_st0_idle]
    by (simp add: st0_idle_def st0_stuck_def)
  have f: "numConcurrent (lim st0_idle) = 1" by (simp add: st0_idle_def)
  from a b c d e f reach_st0_full reach_st0_wait reach_st0_fired reach_st0_idle
  show ?thesis by simp
qed

text \<open>
  C6. In every reachable state, take a call parked in its \<^verbatim>\<open>select\<close> whose context has
  been cancelled with error \<open>e\<close>. Taking the \<^verbatim>\<open>Done\<close> branch changes only the call's own
  place, and after the exit the state differs from the one before in exactly two things:
  the participant count is 1 less and the call has returned \<open>e\<close>. So the managers with
  their levels, the schedulers and every other call are as they were. After the
  cancellation a dispense to any other call, and a refill, is enabled exactly when it
  was enabled before, and changes the same level by the same 1. A manager that was
  offering a token hands it to the next call that arrives, with no tick and no refill in
  between; a manager that stood at its switch with a level other than 0 does so after its
  switch; and when a full manager returns because the cancelled call was the only one,
  the next call starts a new manager and gets its token from that one, again with no tick
  and no refill.
\<close>

theorem cancelled_call_takes_no_token:
  assumes "reach (NewReservoirLimiter mt rd) s" and "\<not> panicked s"
    and "i < length (callers s)" and "c = callers s ! i"
    and "cpc c = CSelect" and "ctx c = Some e"
    and "t = s\<lparr>lim := (lim s)\<lparr>numConcurrent := numConcurrent (lim s) - 1\<rparr>,
               callers := (callers s)[i := c\<lparr>cpc := CReturned (Some e)\<rparr>]\<rparr>"
  shows
    "step (TakeCancel i) s = Some (s\<lparr>callers := (callers s)[i := c\<lparr>cpc := CCancelled\<rparr>]\<rparr>) \<and>
     run [TakeCancel i, ExitCancel i] s = Some t \<and>
     (\<forall>j i'. i' \<noteq> i \<longrightarrow>
        step (Dispense j i') t =
          (if j < length (managers s) \<and> send_ready (managers s ! j) \<and>
              i' < length (callers s) \<and> cpc (callers s ! i') = CSelect
           then Some (t\<lparr>managers := (managers s)
                          [j := \<lparr>tokenCount = tokenCount (managers s ! j) - 1, mpc = MLoop\<rparr>],
                        callers := (callers t)[i' := (callers s ! i')\<lparr>cpc := CGotToken\<rparr>],
                        refillers :=
                          (if mpc (managers s ! j) = MSend then refillers s @ [RStart]
                           else refillers s)\<rparr>)
           else None)) \<and>
     (\<forall>k j. step (Refill k j) t =
        (if k < length (refillers s) \<and> refillers s ! k = RSelect \<and>
            j < length (managers s) \<and> recv_ready (managers s ! j)
         then Some (t\<lparr>managers := (managers s)
                        [j := \<lparr>tokenCount = tokenCount (managers s ! j) + 1, mpc = MLoop\<rparr>],
                      refillers := (refillers s)[k := RWait]\<rparr>)
         else None)) \<and>
     (\<forall>j c'. j < length (managers s) \<and> send_ready (managers s ! j) \<longrightarrow>
        run [TakeCancel i, ExitCancel i, Call c', Enter (length (callers s)),
             Dispense j (length (callers s))] s =
          Some (s\<lparr>managers := (managers s)
                    [j := \<lparr>tokenCount = tokenCount (managers s ! j) - 1, mpc = MLoop\<rparr>],
                  callers := (callers s)[i := c\<lparr>cpc := CReturned (Some e)\<rparr>] @
                    [\<lparr>ctx = c', cpc = CGotToken\<rparr>],
                  refillers :=
                    (if mpc (managers s ! j) = MSend then refillers s @ [RStart]
                     else refillers s)\<rparr>)) \<and>
     (\<forall>j c'. j < length (managers s) \<and> mpc (managers s ! j) = MLoop \<and>
          tokenCount (managers s ! j) \<noteq> 0 \<longrightarrow>
        run [TakeCancel i, ExitCancel i, Call c', Enter (length (callers s)), Switch j,
             Dispense j (length (callers s))] s =
          Some (s\<lparr>managers := (managers s)
                    [j := \<lparr>tokenCount = tokenCount (managers s ! j) - 1, mpc = MLoop\<rparr>],
                  callers := (callers s)[i := c\<lparr>cpc := CReturned (Some e)\<rparr>] @
                    [\<lparr>ctx = c', cpc = CGotToken\<rparr>],
                  refillers :=
                    (if tokenCount (managers s ! j) = mt then refillers s @ [RStart]
                     else refillers s)\<rparr>)) \<and>
     (\<forall>j c'. j < length (managers s) \<and> mpc (managers s ! j) = MLoop \<and>
          tokenCount (managers s ! j) = mt \<and> mt \<noteq> 0 \<and> numConcurrent (lim s) = 2 \<longrightarrow>
        run [TakeCancel i, ExitCancel i, Switch j, Call c', Enter (length (callers s)),
             Switch (length (managers s)),
             Dispense (length (managers s)) (length (callers s))] s =
          Some (s\<lparr>managers := (managers s)[j := (managers s ! j)\<lparr>mpc := MReturned\<rparr>] @
                    [\<lparr>tokenCount = mt - 1, mpc = MLoop\<rparr>],
                  callers := (callers s)[i := c\<lparr>cpc := CReturned (Some e)\<rparr>] @
                    [\<lparr>ctx = c', cpc = CGotToken\<rparr>],
                  refillers := refillers s @ [RStart]\<rparr>))"
    (is "?A \<and> ?B \<and> ?C \<and> ?R \<and> ?D \<and> ?E \<and> ?G")
proof (intro conjI)
  have init0: "numConcurrent (NewReservoirLimiter mt rd) = 0"
    by (simp add: NewReservoirLimiter_def)
  have inv: "count_inv s" by (rule count_inv_reach [OF init0 assms(1)])
  have cap: "maxTokens (lim s) = mt"
    using capacity_reach [OF assms(1)] by (simp add: NewReservoirLimiter_def)
  have ins: "inside (callers s ! i)" using assms(4,5) by (simp add: inside_def)
  show ?A using assms by (simp add: step_def sets)
  show ?B using assms by (simp add: step_def sets)
  show ?C using assms by (auto simp: step_def dispense_def Let_def sets nth_list_update)
  show ?R using assms by (auto simp: step_def refill_def sets)
  show ?G
  proof (intro allI impI)
    fix j c'
    assume h: "j < length (managers s) \<and> mpc (managers s ! j) = MLoop \<and>
          tokenCount (managers s ! j) = mt \<and> mt \<noteq> 0 \<and> numConcurrent (lim s) = 2"
    with assms cap show "run [TakeCancel i, ExitCancel i, Switch j, Call c',
             Enter (length (callers s)), Switch (length (managers s)),
             Dispense (length (managers s)) (length (callers s))] s =
          Some (s\<lparr>managers := (managers s)[j := (managers s ! j)\<lparr>mpc := MReturned\<rparr>] @
                    [\<lparr>tokenCount = mt - 1, mpc = MLoop\<rparr>],
                  callers := (callers s)[i := c\<lparr>cpc := CReturned (Some e)\<rparr>] @
                    [\<lparr>ctx = c', cpc = CGotToken\<rparr>],
                  refillers := refillers s @ [RStart]\<rparr>)"
      by (simp add: step_def limit_enter_def manager_switch_def dispense_def send_ready_def
          Let_def sets nth_append list_update_append)
  qed
  show ?D
  proof (intro allI impI)
    fix j c'
    assume h: "j < length (managers s) \<and> send_ready (managers s ! j)"
    then have "running (managers s ! j)" by (auto simp: send_ready_def running_def)
    with two_participants [OF inv _ _ assms(3) ins, of j] h
    have n: "2 \<le> numConcurrent (lim s)" by blast
    with assms h show "run [TakeCancel i, ExitCancel i, Call c', Enter (length (callers s)),
             Dispense j (length (callers s))] s =
          Some (s\<lparr>managers := (managers s)
                    [j := \<lparr>tokenCount = tokenCount (managers s ! j) - 1, mpc = MLoop\<rparr>],
                  callers := (callers s)[i := c\<lparr>cpc := CReturned (Some e)\<rparr>] @
                    [\<lparr>ctx = c', cpc = CGotToken\<rparr>],
                  refillers :=
                    (if mpc (managers s ! j) = MSend then refillers s @ [RStart]
                     else refillers s)\<rparr>)"
      by (simp add: step_def limit_enter_def dispense_def Let_def sets nth_append
          list_update_append)
  qed
  show ?E
  proof (intro allI impI)
    fix j c'
    assume h: "j < length (managers s) \<and> mpc (managers s ! j) = MLoop \<and>
          tokenCount (managers s ! j) \<noteq> 0"
    then have "running (managers s ! j)" by (auto simp: running_def)
    with two_participants [OF inv _ _ assms(3) ins, of j] h
    have n: "2 \<le> numConcurrent (lim s)" by blast
    with assms h cap show "run [TakeCancel i, ExitCancel i, Call c', Enter (length (callers s)),
             Switch j, Dispense j (length (callers s))] s =
          Some (s\<lparr>managers := (managers s)
                    [j := \<lparr>tokenCount = tokenCount (managers s ! j) - 1, mpc = MLoop\<rparr>],
                  callers := (callers s)[i := c\<lparr>cpc := CReturned (Some e)\<rparr>] @
                    [\<lparr>ctx = c', cpc = CGotToken\<rparr>],
                  refillers :=
                    (if tokenCount (managers s ! j) = mt then refillers s @ [RStart]
                     else refillers s)\<rparr>)"
      by (simp add: step_def limit_enter_def manager_switch_def dispense_def send_ready_def
          Let_def sets nth_append list_update_append)
  qed
qed


theorem cancelled_call_takes_no_token_witness:
  "reach (NewReservoirLimiter 1 1) stc_offer \<and>
   run [TakeCancel 0, ExitCancel 0] stc_offer = Some stc_left \<and>
   managers stc_left = managers stc_offer \<and> refillers stc_left = refillers stc_offer \<and>
   run [TakeCancel 0, ExitCancel 0, Call None, Enter 1, Dispense 0 1] stc_offer =
     Some stc_next \<and>
   reach (NewReservoirLimiter 1 1) stc_wait \<and>
   run [TakeCancel 0, ExitCancel 0, Call None, Enter 1, Switch 0, Dispense 0 1] stc_wait =
     Some stc_next \<and>
   run [TakeCancel 0, ExitCancel 0, Switch 0, Call None, Enter 1, Switch 1, Dispense 1 1]
     stc_wait = Some stc_restart"
proof -
  have p: "\<not> panicked stc_offer" "0 < length (callers stc_offer)"
    "cpc (callers stc_offer ! 0) = CSelect" "ctx (callers stc_offer ! 0) = Some ''gone''"
    "0 < length (managers stc_offer) \<and> send_ready (managers stc_offer ! 0)"
    by (simp_all add: stc_offer_def send_ready_def)
  have q: "\<not> panicked stc_wait" "0 < length (callers stc_wait)"
    "cpc (callers stc_wait ! 0) = CSelect" "ctx (callers stc_wait ! 0) = Some ''gone''"
    "0 < length (managers stc_wait) \<and> mpc (managers stc_wait ! 0) = MLoop \<and>
     tokenCount (managers stc_wait ! 0) \<noteq> 0"
    by (simp_all add: stc_wait_def)
  have len: "length (callers stc_offer) = 1" "length (callers stc_wait) = 1"
    by (simp_all add: stc_offer_def stc_wait_def)
  have e1: "stc_offer\<lparr>lim := (lim stc_offer)\<lparr>numConcurrent := numConcurrent (lim stc_offer) - 1\<rparr>,
       callers := (callers stc_offer)
         [0 := (callers stc_offer ! 0)\<lparr>cpc := CReturned (Some ''gone'')\<rparr>]\<rparr> = stc_left"
    by (simp add: stc_offer_def stc_left_def)
  have e2: "stc_offer\<lparr>managers := (managers stc_offer)
         [0 := \<lparr>tokenCount = tokenCount (managers stc_offer ! 0) - 1, mpc = MLoop\<rparr>],
       callers := (callers stc_offer)
         [0 := (callers stc_offer ! 0)\<lparr>cpc := CReturned (Some ''gone'')\<rparr>] @
         [\<lparr>ctx = None, cpc = CGotToken\<rparr>],
       refillers :=
         (if mpc (managers stc_offer ! 0) = MSend then refillers stc_offer @ [RStart]
          else refillers stc_offer)\<rparr> = stc_next"
    by (simp add: stc_offer_def stc_next_def)
  have e3: "stc_wait\<lparr>managers := (managers stc_wait)
         [0 := \<lparr>tokenCount = tokenCount (managers stc_wait ! 0) - 1, mpc = MLoop\<rparr>],
       callers := (callers stc_wait)
         [0 := (callers stc_wait ! 0)\<lparr>cpc := CReturned (Some ''gone'')\<rparr>] @
         [\<lparr>ctx = None, cpc = CGotToken\<rparr>],
       refillers :=
         (if tokenCount (managers stc_wait ! 0) = 1 then refillers stc_wait @ [RStart]
          else refillers stc_wait)\<rparr> = stc_next"
    by (simp add: stc_wait_def stc_next_def)
  note one = cancelled_call_takes_no_token [OF reach_stc_offer p(1,2) refl p(3,4) refl]
  note two = cancelled_call_takes_no_token [OF reach_stc_wait q(1,2) refl q(3,4) refl]
  from one [THEN conjunct2, THEN conjunct1]
  have a: "run [TakeCancel 0, ExitCancel 0] stc_offer = Some stc_left"
    unfolding e1 .
  from one [THEN conjunct2, THEN conjunct2, THEN conjunct2, THEN conjunct2, THEN conjunct1,
      rule_format, OF p(5), where c' = None]
  have b: "run [TakeCancel 0, ExitCancel 0, Call None, Enter 1, Dispense 0 1] stc_offer =
      Some stc_next"
    unfolding e2 len .
  from two [THEN conjunct2, THEN conjunct2, THEN conjunct2, THEN conjunct2, THEN conjunct2,
      THEN conjunct1, rule_format, OF q(5), where c' = None]
  have c: "run [TakeCancel 0, ExitCancel 0, Call None, Enter 1, Switch 0, Dispense 0 1]
      stc_wait = Some stc_next"
    unfolding e3 len .
  have q': "0 < length (managers stc_wait) \<and> mpc (managers stc_wait ! 0) = MLoop \<and>
     tokenCount (managers stc_wait ! 0) = 1 \<and> (1::int) \<noteq> 0 \<and>
     numConcurrent (lim stc_wait) = 2" "length (managers stc_wait) = 1"
    by (simp_all add: stc_wait_def)
  have e4: "stc_wait\<lparr>managers := (managers stc_wait)
         [0 := (managers stc_wait ! 0)\<lparr>mpc := MReturned\<rparr>] @
         [\<lparr>tokenCount = 1 - 1, mpc = MLoop\<rparr>],
       callers := (callers stc_wait)
         [0 := (callers stc_wait ! 0)\<lparr>cpc := CReturned (Some ''gone'')\<rparr>] @
         [\<lparr>ctx = None, cpc = CGotToken\<rparr>],
       refillers := refillers stc_wait @ [RStart]\<rparr> = stc_restart"
    by (simp add: stc_wait_def stc_restart_def)
  from two [THEN conjunct2, THEN conjunct2, THEN conjunct2, THEN conjunct2, THEN conjunct2,
      THEN conjunct2, rule_format, OF q'(1), where c' = None]
  have g: "run [TakeCancel 0, ExitCancel 0, Switch 0, Call None, Enter 1, Switch 1,
      Dispense 1 1] stc_wait = Some stc_restart"
    unfolding e4 len q'(2) .
  have d: "managers stc_left = managers stc_offer" "refillers stc_left = refillers stc_offer"
    by (simp_all add: stc_left_def stc_offer_def)
  from a b c g d reach_stc_offer reach_stc_wait show ?thesis by (intro conjI)
qed

text \<open>
  C7. For every capacity \<open>n\<close> of at least 1, the schedule \<open>admit_all n\<close>, in which
  \<open>n + 1\<close> calls enter and which contains no tick, no cancellation and no refill, runs
  from the initial state and ends with \<open>n\<close> calls returned with \<^verbatim>\<open>nil\<close>, the last call
  parked in its \<^verbatim>\<open>select\<close> and the manager parked at the receive with level 0.

  In every state reached by any run without a tick: at most \<open>n\<close> calls have been
  admitted; no refill is enabled; a dispense is enabled only while fewer than \<open>n\<close> calls
  have been admitted; once \<open>n\<close> have been admitted, a call parked in its \<^verbatim>\<open>select\<close> is
  moved only by its own \<^verbatim>\<open>Done\<close> branch, which needs its context cancelled; and while
  fewer than \<open>n\<close> have been admitted and nothing has panicked, every call parked in its
  \<^verbatim>\<open>select\<close> can be handed a token at once or after the manager's switch.

  From the final state of the schedule the last call does get out by a cancellation
  (returning its error) and, for a positive refill period, by a refill (returning
  \<^verbatim>\<open>nil\<close>).
\<close>

theorem full_reservoir_admits_exactly_capacity:
  assumes "1 \<le> n"
  shows
    "run (admit_all n) (init (NewReservoirLimiter (int n) rd)) =
       Some (queue_state n rd n 1 MRecv) \<and>
     (\<forall>a \<in> set (admit_all n).
        \<not> is_tick a \<and> (\<forall>i e. a \<noteq> Cancel i e) \<and> (\<forall>k j. a \<noteq> Refill k j)) \<and>
     length (filter admitted (callers (queue_state n rd n 1 MRecv))) = n \<and>
     (\<forall>as s. run as (init (NewReservoirLimiter (int n) rd)) = Some s \<and>
          (\<forall>a \<in> set as. \<not> is_tick a) \<longrightarrow>
        length (filter admitted (callers s)) \<le> n \<and>
        (\<forall>k j. step (Refill k j) s = None) \<and>
        (\<forall>j i. step (Dispense j i) s \<noteq> None \<longrightarrow> length (filter admitted (callers s)) < n) \<and>
        (\<forall>i < length (callers s).
           cpc (callers s ! i) = CSelect \<and> length (filter admitted (callers s)) = n \<longrightarrow>
           (\<forall>a t. step a s = Some t \<and> cpc (callers t ! i) \<noteq> CSelect \<longrightarrow>
              a = TakeCancel i \<and> ctx (callers s ! i) \<noteq> None)) \<and>
        (\<forall>i < length (callers s).
           cpc (callers s ! i) = CSelect \<and> length (filter admitted (callers s)) < n \<and>
           \<not> panicked s \<longrightarrow>
           (\<exists>j t. (run [Dispense j i] s = Some t \<or> run [Switch j, Dispense j i] s = Some t) \<and>
              cpc (callers t ! i) = CGotToken))) \<and>
     (\<forall>e. \<exists>t. run [Cancel n e, TakeCancel n, ExitCancel n] (queue_state n rd n 1 MRecv) =
          Some t \<and> cpc (callers t ! n) = CReturned (Some e)) \<and>
     (0 < rd \<longrightarrow>
        (\<exists>t. run [StartTicker 0, Tick 0, Refill 0 0, Switch 0, Dispense 0 n, ExitOk n]
           (queue_state n rd n 1 MRecv) = Some t \<and> cpc (callers t ! n) = CReturned None))"
    (is "?A \<and> ?B \<and> ?C \<and> ?D \<and> ?E \<and> ?F")
proof (intro conjI)
  show ?A by (rule admit_all_run)
  show ?B by (rule admit_all_quiet)
  show ?C by (rule drained_admitted)
  show ?D
  proof (intro allI impI)
    fix as s
    assume "run as (init (NewReservoirLimiter (int n) rd)) = Some s \<and>
          (\<forall>a \<in> set as. \<not> is_tick a)"
    then have q: "quiet_inv n s" using quiet_reach by blast
    show "length (filter admitted (callers s)) \<le> n \<and>
        (\<forall>k j. step (Refill k j) s = None) \<and>
        (\<forall>j i. step (Dispense j i) s \<noteq> None \<longrightarrow> length (filter admitted (callers s)) < n) \<and>
        (\<forall>i < length (callers s).
           cpc (callers s ! i) = CSelect \<and> length (filter admitted (callers s)) = n \<longrightarrow>
           (\<forall>a t. step a s = Some t \<and> cpc (callers t ! i) \<noteq> CSelect \<longrightarrow>
              a = TakeCancel i \<and> ctx (callers s ! i) \<noteq> None)) \<and>
        (\<forall>i < length (callers s).
           cpc (callers s ! i) = CSelect \<and> length (filter admitted (callers s)) < n \<and>
           \<not> panicked s \<longrightarrow>
           (\<exists>j t. (run [Dispense j i] s = Some t \<or> run [Switch j, Dispense j i] s = Some t) \<and>
              cpc (callers t ! i) = CGotToken))"
    proof (intro conjI allI impI)
      show "length (filter admitted (callers s)) \<le> n" by (rule quiet_bound [OF q])
    next
      fix k j show "step (Refill k j) s = None" by (rule quiet_no_refill [OF q])
    next
      fix j i assume "step (Dispense j i) s \<noteq> None"
      then show "length (filter admitted (callers s)) < n" by (rule quiet_dispense [OF q])
    next
      fix i a t
      assume "i < length (callers s)"
        and "cpc (callers s ! i) = CSelect \<and> length (filter admitted (callers s)) = n"
        and "step a s = Some t \<and> cpc (callers t ! i) \<noteq> CSelect"
      with quiet_blocked [OF q, of i a t] show "a = TakeCancel i" by blast
    next
      fix i a t
      assume "i < length (callers s)"
        and "cpc (callers s ! i) = CSelect \<and> length (filter admitted (callers s)) = n"
        and "step a s = Some t \<and> cpc (callers t ! i) \<noteq> CSelect"
      with quiet_blocked [OF q, of i a t] show "ctx (callers s ! i) \<noteq> None" by blast
    next
      fix i
      assume "i < length (callers s)"
        and "cpc (callers s ! i) = CSelect \<and> length (filter admitted (callers s)) < n \<and>
           \<not> panicked s"
      with quiet_progress [OF q, of i]
      show "\<exists>j t. (run [Dispense j i] s = Some t \<or> run [Switch j, Dispense j i] s = Some t) \<and>
              cpc (callers t ! i) = CGotToken" by blast
    qed
  qed
  show ?E using drained_cancel by blast
  show ?F using drained_refill [OF assms] by blast
qed

theorem full_reservoir_admits_exactly_capacity_witness:
  "run (admit_all 2) (init (NewReservoirLimiter 2 1)) = Some st2_drained \<and>
   length (filter admitted (callers st2_drained)) = 2 \<and>
   cpc (callers st2_drained ! 2) = CSelect \<and>
   step (Dispense 0 2) st2_drained = None \<and> step (Refill 0 0) st2_drained = None"
proof -
  have two: "1 \<le> (2::nat)" by simp
  note inst = full_reservoir_admits_exactly_capacity [OF two, of 1]
  from inst [THEN conjunct1] st2_drained_queue
  have a: "run (admit_all 2) (init (NewReservoirLimiter 2 1)) = Some st2_drained"
    by simp
  from inst [THEN conjunct2, THEN conjunct1] have q: "\<forall>a \<in> set (admit_all 2). \<not> is_tick a"
    by blast
  from inst [THEN conjunct2, THEN conjunct2, THEN conjunct1] st2_drained_queue
  have b: "length (filter admitted (callers st2_drained)) = 2"
    by simp
  from a q have h: "run (admit_all 2) (init (NewReservoirLimiter (int 2) 1)) = Some st2_drained \<and>
      (\<forall>a \<in> set (admit_all 2). \<not> is_tick a)" by simp
  note rest = inst [THEN conjunct2, THEN conjunct2, THEN conjunct2, THEN conjunct1,
      THEN spec, THEN spec, THEN mp, OF h]
  from rest [THEN conjunct2, THEN conjunct1] have c: "step (Refill 0 0) st2_drained = None"
    by blast
  from rest [THEN conjunct2, THEN conjunct2, THEN conjunct1] b
  have d: "step (Dispense 0 2) st2_drained = None" by fastforce
  have e: "cpc (callers st2_drained ! 2) = CSelect" by (simp add: st2_drained_def)
  from a b c d e show ?thesis by (intro conjI)
qed

end
